theory Spec2Isabelle
  imports Main
begin

text \<open>
  A chat that streams its answers: the server's generator \<open>generate_chat_responses\<close>, which
  turns the events of the agent graph into server-sent events, and the client's
  \<open>handleSubmit\<close> with the \<open>EventSource\<close> handlers that fold those events into the message
  list, followed by what \<open>MessageArea\<close> shows of a message.
\<close>

section \<open>Text and JavaScript values\<close>

text \<open>
  Text on both sides of the wire (Python \<open>str\<close>, JavaScript strings) is modelled as
  \<^typ>\<open>string\<close>: a list of characters with codes 0 to 255. Inputs whose text leaves that
  range are outside the model.
\<close>

definition dquote :: char where "dquote = CHR 0x22"
definition squote :: char where "squote = CHR 0x27"
definition backslash :: char where "backslash = CHR 0x5C"
definition newline :: char where "newline = CHR 0x0A"

text \<open>
  A value as \<open>JSON.parse\<close> or a property access hands it to the handlers (\<open>data\<close> has
  type \<open>any\<close>). A Number is carried as the text \<open>String(n)\<close> gives for it, which is all
  the handlers ever observe of a number. An object is its own properties in insertion order.
\<close>

datatype jsval =
    JUndefined
  | JNull
  | JBool bool
  | JNum string
  | JStr string
  | JArr "jsval list"
  | JObj "(string \<times> jsval) list"

text \<open>\<open>data.key\<close>: a TypeError (\<open>None\<close>) on \<open>null\<close> and \<open>undefined\<close>, the own property of
  an object, \<open>undefined\<close> for a key that is absent and on every other value (none of the
  keys read by the handlers is inherited).\<close>

fun getprop :: "jsval \<Rightarrow> string \<Rightarrow> jsval option" where
  "getprop JUndefined k = None"
| "getprop JNull k = None"
| "getprop (JObj ms) k = Some (case map_of ms k of None \<Rightarrow> JUndefined | Some v \<Rightarrow> v)"
| "getprop v k = Some JUndefined"

definition get :: "jsval \<Rightarrow> string \<Rightarrow> jsval" where
  "get d k = (case getprop d k of None \<Rightarrow> JUndefined | Some v \<Rightarrow> v)"

text \<open>Truthiness, as \<open>if (x)\<close>, \<open>x || y\<close> and \<open>x ? a : b\<close> test it.\<close>

fun truthy :: "jsval \<Rightarrow> bool" where
  "truthy JUndefined = False"
| "truthy JNull = False"
| "truthy (JBool b) = b"
| "truthy (JNum n) = (n \<noteq> ''0'' \<and> n \<noteq> ''NaN'')"
| "truthy (JStr s) = (s \<noteq> [])"
| "truthy (JArr xs) = True"
| "truthy (JObj ms) = True"

fun join :: "string \<Rightarrow> string list \<Rightarrow> string" where
  "join sep [] = []"
| "join sep [x] = x"
| "join sep (x # y # ys) = x @ sep @ join sep (y # ys)"

text \<open>The string conversion that \<open>s += v\<close> applies to \<open>v\<close>: an array joins its elements
  with commas (\<open>null\<close> and \<open>undefined\<close> elements as empty text), a plain object is
  \<open>[object Object]\<close>.\<close>

fun ToString :: "jsval \<Rightarrow> string" where
  "ToString JUndefined = ''undefined''"
| "ToString JNull = ''null''"
| "ToString (JBool b) = (if b then ''true'' else ''false'')"
| "ToString (JNum n) = n"
| "ToString (JStr s) = s"
| "ToString (JArr xs) =
     join '','' (map (\<lambda>x. if x = JNull \<or> x = JUndefined then [] else ToString x) xs)"
| "ToString (JObj ms) = ''[object Object]''"

section \<open>A model of \<open>JSON.parse\<close>\<close>

text \<open>
  The grammar of JSON text: a scanner that reads one character at a time, then a pushdown
  recogniser over the tokens. \<open>SyntaxError\<close> is the exception \<open>JSON.parse\<close> throws.
  \<open>Unrepresentable\<close> marks a document that leaves the model: a four-digit Unicode escape above
  255, or a number that is not an integer of at most 15 digits (whose \<open>String(n)\<close> is not
  modelled).
\<close>

datatype parse_error = SyntaxError | Unrepresentable

datatype token =
    LBrace | RBrace | LBracket | RBracket | Colon | Comma
  | TStr string
  | TLit jsval

definition is_ws :: "char \<Rightarrow> bool" where
  "is_ws c = (c = CHR '' '' \<or> c = CHR 0x09 \<or> c = CHR 0x0A \<or> c = CHR 0x0D)"

definition code :: "char \<Rightarrow> nat" where
  "code c = of_char c"

definition is_digit :: "char \<Rightarrow> bool" where
  "is_digit c = (48 \<le> code c \<and> code c \<le> 57)"

definition is_delim :: "char \<Rightarrow> bool" where
  "is_delim c = (is_ws c \<or> c = CHR ''{'' \<or> c = CHR ''}'' \<or> c = CHR ''['' \<or> c = CHR '']''
     \<or> c = CHR '':'' \<or> c = CHR '','' \<or> c = dquote)"

definition hex_val :: "char \<Rightarrow> nat option" where
  "hex_val c =
     (if 48 \<le> code c \<and> code c \<le> 57 then Some (code c - 48)
      else if 97 \<le> code c \<and> code c \<le> 102 then Some (code c - 87)
      else if 65 \<le> code c \<and> code c \<le> 70 then Some (code c - 55)
      else None)"

definition unescape :: "char \<Rightarrow> char option" where
  "unescape c =
     (if c = dquote then Some dquote
      else if c = backslash then Some backslash
      else if c = CHR ''/'' then Some (CHR ''/'')
      else if c = CHR ''b'' then Some (CHR 0x08)
      else if c = CHR ''f'' then Some (CHR 0x0C)
      else if c = CHR ''n'' then Some (CHR 0x0A)
      else if c = CHR ''r'' then Some (CHR 0x0D)
      else if c = CHR ''t'' then Some (CHR 0x09)
      else None)"

definition exponent_ok :: "string \<Rightarrow> bool" where
  "exponent_ok r =
     (r = [] \<or>
      ((hd r = CHR ''e'' \<or> hd r = CHR ''E'') \<and>
       (let s = tl r;
            ds = (if s \<noteq> [] \<and> (hd s = CHR ''+'' \<or> hd s = CHR ''-'') then tl s else s)
        in ds \<noteq> [] \<and> list_all is_digit ds)))"

text \<open>A number literal: \<open>-? (0 | [1-9][0-9]*) (. [0-9]+)? ([eE] [+-]? [0-9]+)?\<close>.\<close>

definition json_number :: "string \<Rightarrow> parse_error + string" where
  "json_number w =
     (let neg = (w \<noteq> [] \<and> hd w = CHR ''-'');
          r = (if neg then tl w else w);
          ds = takeWhile is_digit r;
          r1 = dropWhile is_digit r
      in if ds = [] \<or> (1 < length ds \<and> hd ds = CHR ''0'') then Inl SyntaxError
         else if r1 = [] then
           (if 15 < length ds then Inl Unrepresentable
            else if ds = ''0'' then Inr ''0''
            else Inr ((if neg then ''-'' else []) @ ds))
         else if hd r1 = CHR ''.'' then
           (let fs = takeWhile is_digit (tl r1); r2 = dropWhile is_digit (tl r1)
            in if fs \<noteq> [] \<and> exponent_ok r2 then Inl Unrepresentable else Inl SyntaxError)
         else if exponent_ok r1 then Inl Unrepresentable
         else Inl SyntaxError)"

definition word_token :: "string \<Rightarrow> parse_error + token" where
  "word_token w =
     (if w = ''true'' then Inr (TLit (JBool True))
      else if w = ''false'' then Inr (TLit (JBool False))
      else if w = ''null'' then Inr (TLit JNull)
      else (case json_number w of Inl e \<Rightarrow> Inl e | Inr n \<Rightarrow> Inr (TLit (JNum n))))"

datatype lexmode =
    Top
  | Bare string
  | Str string
  | Esc string
  | Uni string nat nat

definition top_char :: "char \<Rightarrow> token list \<Rightarrow> lexmode \<times> token list" where
  "top_char c ts =
     (if is_ws c then (Top, ts)
      else if c = CHR ''{'' then (Top, LBrace # ts)
      else if c = CHR ''}'' then (Top, RBrace # ts)
      else if c = CHR ''['' then (Top, LBracket # ts)
      else if c = CHR '']'' then (Top, RBracket # ts)
      else if c = CHR '':'' then (Top, Colon # ts)
      else if c = CHR '','' then (Top, Comma # ts)
      else if c = dquote then (Str [], ts)
      else (Bare [c], ts))"

text \<open>The scanner. Tokens and the characters of the current token are kept in reverse.\<close>

fun lex :: "lexmode \<Rightarrow> token list \<Rightarrow> string \<Rightarrow> parse_error + token list" where
  "lex Top ts [] = Inr (rev ts)"
| "lex (Bare w) ts [] =
     (case word_token (rev w) of Inl e \<Rightarrow> Inl e | Inr t \<Rightarrow> Inr (rev (t # ts)))"
| "lex (Str s) ts [] = Inl SyntaxError"
| "lex (Esc s) ts [] = Inl SyntaxError"
| "lex (Uni s n v) ts [] = Inl SyntaxError"
| "lex Top ts (c # cs) = (case top_char c ts of (m, ts') \<Rightarrow> lex m ts' cs)"
| "lex (Bare w) ts (c # cs) =
     (if is_delim c then
        (case word_token (rev w) of
           Inl e \<Rightarrow> Inl e
         | Inr t \<Rightarrow> (case top_char c (t # ts) of (m, ts') \<Rightarrow> lex m ts' cs))
      else lex (Bare (c # w)) ts cs)"
| "lex (Str s) ts (c # cs) =
     (if c = dquote then lex Top (TStr (rev s) # ts) cs
      else if c = backslash then lex (Esc s) ts cs
      else if code c < 0x20 then Inl SyntaxError
      else lex (Str (c # s)) ts cs)"
| "lex (Esc s) ts (c # cs) =
     (if c = CHR ''u'' then lex (Uni s 0 0) ts cs
      else (case unescape c of
              None \<Rightarrow> Inl SyntaxError
            | Some x \<Rightarrow> lex (Str (x # s)) ts cs))"
| "lex (Uni s n v) ts (c # cs) =
     (case hex_val c of
        None \<Rightarrow> Inl SyntaxError
      | Some d \<Rightarrow>
          (if n = 3 then
             (if v * 16 + d < 256 then lex (Str (char_of (v * 16 + d) # s)) ts cs
              else Inl Unrepresentable)
           else lex (Uni s (Suc n) (v * 16 + d)) ts cs))"

text \<open>A duplicate key keeps its first position and takes the last value.\<close>

fun obj_put :: "(string \<times> jsval) list \<Rightarrow> string \<Rightarrow> jsval \<Rightarrow> (string \<times> jsval) list" where
  "obj_put [] k v = [(k, v)]"
| "obj_put ((k', v') # ms) k v = (if k' = k then (k, v) # ms else (k', v') # obj_put ms k v)"

datatype container =
    InArr "jsval list"
  | InObj "(string \<times> jsval) list"
  | InMember "(string \<times> jsval) list" string

datatype expect = EValue | EValueOrClose | EKey | EKeyOrClose | EColon | ECommaOrClose

datatype pstate = Go expect "container list" | Done jsval | Fail

fun complete :: "jsval \<Rightarrow> container list \<Rightarrow> pstate" where
  "complete v [] = Done v"
| "complete v (InArr es # st) = Go ECommaOrClose (InArr (es @ [v]) # st)"
| "complete v (InMember ms k # st) = Go ECommaOrClose (InObj (obj_put ms k v) # st)"
| "complete v (InObj ms # st) = Fail"

definition wants_value :: "expect \<Rightarrow> bool" where
  "wants_value e = (e = EValue \<or> e = EValueOrClose)"

fun pstep :: "pstate \<Rightarrow> token \<Rightarrow> pstate" where
  "pstep (Go e st) (TLit v) = (if wants_value e then complete v st else Fail)"
| "pstep (Go e st) (TStr s) =
     (if wants_value e then complete (JStr s) st
      else if e = EKey \<or> e = EKeyOrClose then
        (case st of InObj ms # st' \<Rightarrow> Go EColon (InMember ms s # st') | _ \<Rightarrow> Fail)
      else Fail)"
| "pstep (Go e st) LBracket = (if wants_value e then Go EValueOrClose (InArr [] # st) else Fail)"
| "pstep (Go e st) LBrace = (if wants_value e then Go EKeyOrClose (InObj [] # st) else Fail)"
| "pstep (Go e st) RBracket =
     (case st of
        InArr es # st' \<Rightarrow>
          (if e = EValueOrClose \<or> e = ECommaOrClose then complete (JArr es) st' else Fail)
      | _ \<Rightarrow> Fail)"
| "pstep (Go e st) RBrace =
     (case st of
        InObj ms # st' \<Rightarrow>
          (if e = EKeyOrClose \<or> e = ECommaOrClose then complete (JObj ms) st' else Fail)
      | _ \<Rightarrow> Fail)"
| "pstep (Go e st) Comma =
     (if e = ECommaOrClose then
        (case st of InArr es # st' \<Rightarrow> Go EValue st | InObj ms # st' \<Rightarrow> Go EKey st | _ \<Rightarrow> Fail)
      else Fail)"
| "pstep (Go e st) Colon = (if e = EColon then Go EValue st else Fail)"
| "pstep (Done v) t = Fail"
| "pstep Fail t = Fail"

definition JSON_parse :: "string \<Rightarrow> parse_error + jsval" where
  "JSON_parse s =
     (case lex Top [] s of
        Inl e \<Rightarrow> Inl e
      | Inr ts \<Rightarrow> (case foldl pstep (Go EValue []) ts of Done v \<Rightarrow> Inr v | _ \<Rightarrow> Inl SyntaxError))"

text \<open>\<open>JSON.parse\<close> inside a \<open>try\<close>: \<open>None\<close> when it throws. It is used for the concrete
  runs below, all on documents inside the model; the handlers take the parser as a
  parameter, and what is proved of them holds for every parser.\<close>

definition try_parse :: "string \<Rightarrow> jsval option" where
  "try_parse s = (case JSON_parse s of Inl e \<Rightarrow> None | Inr v \<Rightarrow> Some v)"

section \<open>The stream generator (server, \<open>app.py\<close>)\<close>

text \<open>\<open>s.replace(old, new)\<close> of Python for a one-character \<open>old\<close>, the only form the
  generator calls.\<close>

fun replace :: "string \<Rightarrow> char \<Rightarrow> string \<Rightarrow> string" where
  "replace [] old new = []"
| "replace (c # cs) old new = (if c = old then new else [c]) @ replace cs old new"

datatype py_error = TypeError | GraphError

datatype chunk = AIMessageChunk string | OtherChunk

definition serialise_ai_message_chunk :: "chunk \<Rightarrow> py_error + string" where
  "serialise_ai_message_chunk chunk =
     (case chunk of AIMessageChunk content \<Rightarrow> Inr content | OtherChunk \<Rightarrow> Inl TypeError)"

text \<open>\<open>chunk_content.replace("'", "\\'").replace("\n", "\\n")\<close>\<close>

definition safe_content :: "string \<Rightarrow> string" where
  "safe_content chunk_content =
     replace (replace chunk_content squote [backslash, squote]) newline [backslash, CHR ''n'']"

text \<open>\<open>search_query.replace('"', '\\"').replace("'", "\\'").replace("\n", "\\n")\<close>\<close>

definition safe_query :: "string \<Rightarrow> string" where
  "safe_query search_query =
     replace (replace (replace search_query dquote [backslash, dquote])
       squote [backslash, squote]) newline [backslash, CHR ''n'']"

text \<open>\<open>json.dumps\<close> of a list of strings, with Python's defaults: every character outside
  the range from space to tilde is escaped, items are separated by a comma and a space.\<close>

definition hex_digit :: "nat \<Rightarrow> char" where
  "hex_digit n = (if n < 10 then char_of (48 + n) else char_of (87 + n))"

definition dumps_char :: "char \<Rightarrow> string" where
  "dumps_char c =
     (if c = dquote then [backslash, dquote]
      else if c = backslash then [backslash, backslash]
      else if c = CHR 0x0A then [backslash, CHR ''n'']
      else if c = CHR 0x0D then [backslash, CHR ''r'']
      else if c = CHR 0x09 then [backslash, CHR ''t'']
      else if c = CHR 0x08 then [backslash, CHR ''b'']
      else if c = CHR 0x0C then [backslash, CHR ''f'']
      else if 32 \<le> code c \<and> code c \<le> 126 then [c]
      else [backslash, CHR ''u'', CHR ''0'', CHR ''0'',
            hex_digit (code c div 16), hex_digit (code c mod 16)])"

definition dumps_str :: "string \<Rightarrow> string" where
  "dumps_str s = [dquote] @ concat (map dumps_char s) @ [dquote]"

definition json_dumps :: "string list \<Rightarrow> string" where
  "json_dumps urls = ''['' @ join '', '' (map dumps_str urls) @ '']''"

text \<open>What the graph's event iterator hands to the loop. Only the fields the generator
  reads are kept.\<close>

record tool_call =
  call_name :: string
  call_args :: "(string \<times> string) list"

datatype item = Dict "(string \<times> string) list" | NonDict

datatype tool_output = OutputList "item list" | OutputOther

datatype graph_event =
    on_chat_model_stream chunk
  | on_chat_model_end "tool_call list option"
  | on_tool_end string tool_output
  | other_event

text \<open>One \<open>yield\<close> of the generator, by the statement that made it; the argument is the
  text that statement interpolates.\<close>

datatype sse_event =
    Checkpoint string
  | Content string
  | SearchStart string
  | SearchResults string
  | End

fun payload :: "sse_event \<Rightarrow> string" where
  \<open>payload (Checkpoint new_checkpoint_id) =
     ''{"type": "checkpoint", "checkpoint_id": "'' @ new_checkpoint_id @ ''"}''\<close>
| \<open>payload (Content safe) = ''{"type": "content", "content": "'' @ safe @ ''"}''\<close>
| \<open>payload (SearchStart safe) = ''{"type": "search_start", "query": "'' @ safe @ ''"}''\<close>
| \<open>payload (SearchResults urls_json) =
     ''{"type": "search_results", "urls": '' @ urls_json @ ''}''\<close>
| \<open>payload End = ''{"type": "end"}''\<close>

definition wire :: "sse_event \<Rightarrow> string" where
  "wire e = ''data: '' @ payload e @ [newline, newline]"

definition tavily :: string where
  "tavily = ''tavily_search_results_json''"

text \<open>The body of \<open>async for event in events\<close> for one event: the events it yields, or the
  exception it raises.\<close>

fun on_event :: "graph_event \<Rightarrow> py_error + sse_event list" where
  "on_event (on_chat_model_stream chunk) =
     (case serialise_ai_message_chunk chunk of
        Inl e \<Rightarrow> Inl e
      | Inr chunk_content \<Rightarrow> Inr [Content (safe_content chunk_content)])"
| "on_event (on_chat_model_end output) =
     (let tool_calls = (case output of None \<Rightarrow> [] | Some cs \<Rightarrow> cs);
          search_calls = filter (\<lambda>call. call_name call = tavily) tool_calls
      in case search_calls of
           [] \<Rightarrow> Inr []
         | call # others \<Rightarrow>
             (let search_query = (case map_of (call_args call) ''query'' of
                                    None \<Rightarrow> [] | Some q \<Rightarrow> q)
              in Inr [SearchStart (safe_query search_query)]))"
| "on_event (on_tool_end name output) =
     (if name = tavily then
        (case output of
           OutputList items \<Rightarrow>
             Inr [SearchResults (json_dumps
                    (concat (map (\<lambda>item. case item of
                                    Dict d \<Rightarrow> (case map_of d ''url'' of
                                                 None \<Rightarrow> [] | Some url \<Rightarrow> [url])
                                  | NonDict \<Rightarrow> []) items)))]
         | OutputOther \<Rightarrow> Inr [])
      else Inr [])"
| "on_event other_event = Inr []"

text \<open>The iterator: \<open>Next\<close> hands over an event, \<open>Raise\<close> is a failure of the model or of the
  search tool surfacing from \<open>astream_events\<close>; the end of the list is the end of the
  iteration.\<close>

datatype step = Next graph_event | Raise

datatype outcome = Completed | Raised py_error

text \<open>The loop and the final \<open>yield\<close>. The generator has no \<open>try\<close>: an exception ends it on
  the spot.\<close>

fun event_loop :: "step list \<Rightarrow> sse_event list \<times> outcome" where
  "event_loop [] = ([End], Completed)"
| "event_loop (Raise # rest) = ([], Raised GraphError)"
| "event_loop (Next event # rest) =
     (case on_event event of
        Inl e \<Rightarrow> ([], Raised e)
      | Inr out \<Rightarrow> (case event_loop rest of (later, oc) \<Rightarrow> (out @ later, oc)))"

text \<open>\<open>events\<close> is the iterator that \<open>graph.astream_events\<close> returns for the message and
  the thread id of the branch taken; \<open>new_checkpoint_id\<close> is the value of \<open>str(uuid4())\<close>.\<close>

definition generate_events ::
  "step list \<Rightarrow> string \<Rightarrow> string \<Rightarrow> string option \<Rightarrow> sse_event list \<times> outcome" where
  "generate_events events new_checkpoint_id message checkpoint_id =
     (case checkpoint_id of
        None \<Rightarrow>
          (case event_loop events of
             (later, oc) \<Rightarrow> (Checkpoint new_checkpoint_id # later, oc))
      | Some thread_id \<Rightarrow> event_loop events)"

definition generate_chat_responses ::
  "step list \<Rightarrow> string \<Rightarrow> string \<Rightarrow> string option \<Rightarrow> string list \<times> outcome" where
  "generate_chat_responses events new_checkpoint_id message checkpoint_id =
     (case generate_events events new_checkpoint_id message checkpoint_id of
        (evs, oc) \<Rightarrow> (map wire evs, oc))"

fun is_checkpoint :: "sse_event \<Rightarrow> bool" where
  "is_checkpoint (Checkpoint c) = True"
| "is_checkpoint e = False"

text \<open>The characters the escaping of a \<open>content\<close> fragment gets right when they are sent as
  they are: no control character, no quote of either kind, no backslash.\<close>

definition plain :: "char \<Rightarrow> bool" where
  "plain c = (32 \<le> code c \<and> c \<noteq> dquote \<and> c \<noteq> backslash \<and> c \<noteq> squote)"

section \<open>The client (\<open>page.tsx\<close>, \<open>MessageArea.tsx\<close>)\<close>

record SearchInfo =
  stages :: "string list"
  query :: jsval
  urls :: jsval
  error :: "jsval option"

text \<open>The fields \<open>id\<close> and \<open>type\<close> are \<open>id_msg\<close> and \<open>type_msg\<close> here. An optional field
  that is absent is \<open>None\<close>. Ids are the small integers the code counts with.\<close>

record Message =
  id_msg :: int
  content :: string
  isUser :: bool
  type_msg :: string
  isLoading :: "bool option"
  searchInfo :: "SearchInfo option"

text \<open>The three \<open>useState\<close> cells of \<open>Home\<close>.\<close>

record app =
  messages :: "Message list"
  currentMessage :: string
  checkpointId :: jsval

text \<open>The variables one call of \<open>handleSubmit\<close> closes over; \<open>closed\<close> is the state of its
  \<open>EventSource\<close> after \<open>eventSource.close()\<close>.\<close>

record turn =
  aiResponseId :: int
  url :: string
  streamedContent :: string
  searchData :: "SearchInfo option"
  hasReceivedContent :: bool
  closed :: bool

definition initial_app :: app where
  "initial_app =
     \<lparr>messages = [\<lparr>id_msg = 1, content = ''Hi there, how can I help you?'', isUser = False,
                   type_msg = ''message'', isLoading = None, searchInfo = None\<rparr>],
      currentMessage = [],
      checkpointId = JNull\<rparr>"

text \<open>\<open>String.prototype.trim\<close>: the white space and line terminators with codes below
  256.\<close>

definition is_js_space :: "char \<Rightarrow> bool" where
  "is_js_space c = (code c = 9 \<or> code c = 10 \<or> code c = 11 \<or> code c = 12 \<or> code c = 13
     \<or> code c = 32 \<or> code c = 160)"

definition trim :: "string \<Rightarrow> string" where
  "trim s = rev (dropWhile is_js_space (rev (dropWhile is_js_space s)))"

text \<open>\<open>encodeURIComponent\<close>: letters, digits and \<open>- _ . ! ~ * ' ( )\<close> stay, every other
  character becomes the percent-encoded bytes of its UTF-8 form.\<close>

definition unreserved :: "char \<Rightarrow> bool" where
  "unreserved c =
     ((48 \<le> code c \<and> code c \<le> 57) \<or> (65 \<le> code c \<and> code c \<le> 90)
      \<or> (97 \<le> code c \<and> code c \<le> 122)
      \<or> c \<in> set [CHR ''-'', CHR ''_'', CHR ''.'', CHR ''!'', CHR ''~'', CHR ''*'', squote,
                  CHR ''('', CHR '')''])"

definition HEX :: "nat \<Rightarrow> char" where
  "HEX n = (if n < 10 then char_of (48 + n) else char_of (55 + n))"

definition percent :: "nat \<Rightarrow> string" where
  "percent b = [CHR ''%'', HEX (b div 16), HEX (b mod 16)]"

definition encodeURIComponent :: "string \<Rightarrow> string" where
  "encodeURIComponent s =
     concat (map (\<lambda>c. if unreserved c then [c]
                       else if code c < 128 then percent (code c)
                       else percent (192 + code c div 64) @ percent (128 + code c mod 64)) s)"

definition user_message :: "int \<Rightarrow> string \<Rightarrow> Message" where
  "user_message newMessageId text =
     \<lparr>id_msg = newMessageId, content = text, isUser = True, type_msg = ''message'',
      isLoading = None, searchInfo = None\<rparr>"

definition placeholder :: "int \<Rightarrow> Message" where
  "placeholder n =
     \<lparr>id_msg = n, content = [], isUser = False, type_msg = ''message'',
      isLoading = Some True,
      searchInfo = Some \<lparr>stages = [], query = JStr [], urls = JArr [], error = None\<rparr>\<rparr>"

definition connect_error_message :: "int \<Rightarrow> Message" where
  "connect_error_message n =
     \<lparr>id_msg = n, content = ''Sorry, there was an error connecting to the server.'',
      isUser = False, type_msg = ''message'', isLoading = Some False, searchInfo = None\<rparr>"

text \<open>
  \<open>handleSubmit\<close>, after \<open>e.preventDefault()\<close>. \<open>es_throws\<close> says whether
  \<open>new EventSource(url)\<close> throws, which sends control to the \<open>catch\<close> block. The result is
  the new React state and, when a stream was opened, the fresh locals of the turn.
  \<open>newMessageId\<close> is \<open>messages.length > 0 ? Math.max(...messages.map(msg => msg.id)) + 1 : 1\<close>.
\<close>

definition newMessageId :: "Message list \<Rightarrow> int" where
  "newMessageId msgs =
     (case msgs of [] \<Rightarrow> 1 | m # ms \<Rightarrow> foldl max (id_msg m) (map id_msg ms) + 1)"

definition handleSubmit :: "bool \<Rightarrow> app \<Rightarrow> app \<times> turn option" where
  "handleSubmit es_throws a =
     (if trim (currentMessage a) \<noteq> [] then
        (let n = newMessageId (messages a);
             a1 = a\<lparr>messages := messages a @ [user_message n (currentMessage a)]\<rparr>;
             userInput = currentMessage a;
             a2 = a1\<lparr>currentMessage := []\<rparr>;
             responseId = n + 1;
             a3 = a2\<lparr>messages := messages a2 @ [placeholder responseId]\<rparr>;
             url0 = ''http://localhost:8000/chat_stream/'' @ encodeURIComponent userInput;
             url1 = (if truthy (checkpointId a)
                     then url0 @ ''?checkpoint_id=''
                            @ encodeURIComponent (ToString (checkpointId a))
                     else url0)
         in if es_throws then
              (a3\<lparr>messages := messages a3 @ [connect_error_message (n + 1)]\<rparr>, None)
            else
              (a3, Some \<lparr>aiResponseId = responseId, url = url1, streamedContent = [],
                         searchData = None, hasReceivedContent = False, closed = False\<rparr>))
      else (a, None))"

text \<open>\<open>setMessages(prev => prev.map(msg => msg.id === aiResponseId ? f(msg) : msg))\<close>\<close>

definition update_ai :: "int \<Rightarrow> (Message \<Rightarrow> Message) \<Rightarrow> app \<Rightarrow> app" where
  "update_ai n f a =
     a\<lparr>messages := map (\<lambda>msg. if id_msg msg = n then f msg else msg) (messages a)\<rparr>"

text \<open>
  The branches of \<open>eventSource.onmessage\<close>, one per event type; \<open>data\<close> is the parsed
  event. Each branch is the body of the matching \<open>if (data.type === ...)\<close>.
\<close>

definition on_checkpoint :: "turn \<Rightarrow> app \<Rightarrow> jsval \<Rightarrow> turn \<times> app" where
  "on_checkpoint t a data = (t, a\<lparr>checkpointId := get data ''checkpoint_id''\<rparr>)"

definition on_content :: "turn \<Rightarrow> app \<Rightarrow> jsval \<Rightarrow> turn \<times> app" where
  "on_content t a data =
     (let sc = streamedContent t @ ToString (get data ''content'')
      in (t\<lparr>streamedContent := sc, hasReceivedContent := True\<rparr>,
          update_ai (aiResponseId t) (\<lambda>msg. msg\<lparr>content := sc, isLoading := Some False\<rparr>) a))"

definition on_search_start :: "turn \<Rightarrow> app \<Rightarrow> jsval \<Rightarrow> turn \<times> app" where
  "on_search_start t a data =
     (let newSearchInfo =
            \<lparr>stages = [''searching''], query = get data ''query'', urls = JArr [], error = None\<rparr>
      in (t\<lparr>searchData := Some newSearchInfo\<rparr>,
          update_ai (aiResponseId t)
            (\<lambda>msg. msg\<lparr>content := streamedContent t, searchInfo := Some newSearchInfo,
                        isLoading := Some False\<rparr>) a))"

text \<open>\<open>searchData ? [...searchData.stages, stage] : [stage]\<close> and
  \<open>searchData?.query || ""\<close>\<close>

definition next_stages :: "SearchInfo option \<Rightarrow> string \<Rightarrow> string list" where
  "next_stages sd stage = (case sd of Some s \<Rightarrow> stages s @ [stage] | None \<Rightarrow> [stage])"

definition query_or_empty :: "SearchInfo option \<Rightarrow> jsval" where
  "query_or_empty sd =
     (case sd of Some s \<Rightarrow> if truthy (query s) then query s else JStr [] | None \<Rightarrow> JStr [])"

text \<open>The inner \<open>try\<close> of the \<open>search_results\<close> branch: when \<open>data.urls\<close> is a string it
  is parsed, and a failure there leaves everything as it was.\<close>

definition on_search_results ::
  "(string \<Rightarrow> jsval option) \<Rightarrow> turn \<Rightarrow> app \<Rightarrow> jsval \<Rightarrow> turn \<times> app" where
  "on_search_results parse t a data =
     (case (case get data ''urls'' of JStr s \<Rightarrow> parse s | v \<Rightarrow> Some v) of
        None \<Rightarrow> (t, a)
      | Some us \<Rightarrow>
          (let newSearchInfo =
                 \<lparr>stages = next_stages (searchData t) ''reading'',
                  query = query_or_empty (searchData t),
                  urls = us,
                  error = None\<rparr>
           in (t\<lparr>searchData := Some newSearchInfo\<rparr>,
               update_ai (aiResponseId t)
                 (\<lambda>msg. msg\<lparr>content := streamedContent t, searchInfo := Some newSearchInfo,
                             isLoading := Some False\<rparr>) a)))"

definition on_search_error :: "turn \<Rightarrow> app \<Rightarrow> jsval \<Rightarrow> turn \<times> app" where
  "on_search_error t a data =
     (let newSearchInfo =
            \<lparr>stages = next_stages (searchData t) ''error'',
             query = query_or_empty (searchData t),
             urls = JArr [],
             error = Some (get data ''error'')\<rparr>
      in (t\<lparr>searchData := Some newSearchInfo\<rparr>,
          update_ai (aiResponseId t)
            (\<lambda>msg. msg\<lparr>content := streamedContent t, searchInfo := Some newSearchInfo,
                        isLoading := Some False\<rparr>) a))"

definition on_end :: "turn \<Rightarrow> app \<Rightarrow> turn \<times> app" where
  "on_end t a =
     (t\<lparr>closed := True\<rparr>,
      case searchData t of
        None \<Rightarrow> a
      | Some sd \<Rightarrow>
          update_ai (aiResponseId t)
            (\<lambda>msg. msg\<lparr>searchInfo := Some (sd\<lparr>stages := stages sd @ [''writing'']\<rparr>),
                        isLoading := Some False\<rparr>) a)"

text \<open>
  \<open>eventSource.onmessage\<close> on an event whose \<open>data\<close> is \<open>event_data\<close>. \<open>parse\<close> is
  \<open>JSON.parse\<close> in a \<open>try\<close> (\<open>None\<close> when it throws). Reading \<open>data.type\<close> of \<open>null\<close>
  throws into the same \<open>catch\<close>, which only logs.
\<close>

definition onmessage ::
  "(string \<Rightarrow> jsval option) \<Rightarrow> turn \<Rightarrow> app \<Rightarrow> string \<Rightarrow> turn \<times> app" where
  "onmessage parse t a event_data =
     (case parse event_data of
        None \<Rightarrow> (t, a)
      | Some data \<Rightarrow>
          (case getprop data ''type'' of
             None \<Rightarrow> (t, a)
           | Some ty \<Rightarrow>
               if ty = JStr ''checkpoint'' then on_checkpoint t a data
               else if ty = JStr ''content'' then on_content t a data
               else if ty = JStr ''search_start'' then on_search_start t a data
               else if ty = JStr ''search_results'' then on_search_results parse t a data
               else if ty = JStr ''search_error'' then on_search_error t a data
               else if ty = JStr ''end'' then on_end t a
               else (t, a)))"

definition generic_error :: string where
  "generic_error = ''Sorry, there was an error processing your request.''"

text \<open>\<open>eventSource.onerror\<close>\<close>

definition onerror :: "turn \<Rightarrow> app \<Rightarrow> turn \<times> app" where
  "onerror t a =
     (t\<lparr>closed := True\<rparr>,
      if streamedContent t = [] then
        update_ai (aiResponseId t)
          (\<lambda>msg. msg\<lparr>content := generic_error, isLoading := Some False\<rparr>) a
      else a)"

text \<open>What the \<open>EventSource\<close> does to the turn: a message or an error, and nothing once it
  is closed.\<close>

datatype occurrence = OnMessage string | OnError

fun dispatch :: "(string \<Rightarrow> jsval option) \<Rightarrow> turn \<times> app \<Rightarrow> occurrence \<Rightarrow> turn \<times> app" where
  "dispatch parse (t, a) occ =
     (if closed t then (t, a)
      else (case occ of
              OnMessage event_data \<Rightarrow> onmessage parse t a event_data
            | OnError \<Rightarrow> onerror t a))"

definition run ::
  "(string \<Rightarrow> jsval option) \<Rightarrow> turn \<times> app \<Rightarrow> occurrence list \<Rightarrow> turn \<times> app" where
  "run parse ta occs = foldl (dispatch parse) ta occs"

text \<open>The bubble \<open>MessageArea\<close> renders for a message:
  \<open>message.isLoading ? <PremiumTypingAnimation /> : (message.content || <span>Waiting for
  response...</span>)\<close>.\<close>

datatype bubble = PremiumTypingAnimation | Text string | WaitingForResponse

definition MessageArea :: "Message \<Rightarrow> bubble" where
  "MessageArea message =
     (if isLoading message = Some True then PremiumTypingAnimation
      else if content message \<noteq> [] then Text (content message)
      else WaitingForResponse)"

text \<open>The messages of the turn, and the type tag of a received event.\<close>

definition ai_messages :: "turn \<Rightarrow> app \<Rightarrow> Message list" where
  "ai_messages t a = filter (\<lambda>msg. id_msg msg = aiResponseId t) (messages a)"

definition event_type :: "(string \<Rightarrow> jsval option) \<Rightarrow> string \<Rightarrow> jsval option" where
  "event_type parse event_data =
     (case parse event_data of None \<Rightarrow> None | Some data \<Rightarrow> getprop data ''type'')"

text \<open>\<open>a\<close> occurs at a position before some \<open>b\<close> in a list.\<close>

fun occurs_before :: "'a \<Rightarrow> 'a \<Rightarrow> 'a list \<Rightarrow> bool" where
  "occurs_before a b [] = False"
| "occurs_before a b (x # xs) = ((x = a \<and> b \<in> set xs) \<or> occurs_before a b xs)"

text \<open>A submission and what its stream then does: \<open>None\<close> when no stream was opened.\<close>

definition turn_of ::
  "(string \<Rightarrow> jsval option) \<Rightarrow> app \<Rightarrow> occurrence list \<Rightarrow> (turn \<times> app) option" where
  "turn_of parse a occs =
     (case handleSubmit False a of
        (a0, Some t0) \<Rightarrow> Some (run parse (t0, a0) occs)
      | (a0, None) \<Rightarrow> None)"

definition stages_of :: "Message \<Rightarrow> string list" where
  "stages_of msg = (case searchInfo msg of None \<Rightarrow> [] | Some si \<Rightarrow> stages si)"

definition is_content :: "(string \<Rightarrow> jsval option) \<Rightarrow> string \<Rightarrow> string \<Rightarrow> bool" where
  "is_content parse event_data fragment =
     (case parse event_data of
        None \<Rightarrow> False
      | Some data \<Rightarrow>
          getprop data ''type'' = Some (JStr ''content'')
          \<and> get data ''content'' = JStr fragment)"

definition is_end :: "(string \<Rightarrow> jsval option) \<Rightarrow> occurrence \<Rightarrow> bool" where
  "is_end parse occ =
     (case occ of
        OnMessage event_data \<Rightarrow> event_type parse event_data = Some (JStr ''end'')
      | OnError \<Rightarrow> False)"

definition recognised :: "jsval option list" where
  "recognised = map (\<lambda>ty. Some (JStr ty))
     [''checkpoint'', ''content'', ''search_start'', ''search_results'', ''search_error'',
      ''end'']"

text \<open>What holds of a turn and its message between two events: the search record never has
  \<open>searching\<close> after its first stage nor \<open>writing\<close>, the list has one message of the turn,
  and that message shows the accumulated text and the search record.\<close>

definition consistent :: "turn \<Rightarrow> app \<Rightarrow> bool" where
  "consistent t a =
     ((case searchData t of
         None \<Rightarrow> True
       | Some sd \<Rightarrow> ''searching'' \<notin> set (tl (stages sd)) \<and> ''writing'' \<notin> set (stages sd))
      \<and> length (ai_messages t a) = 1
      \<and> (\<forall>m \<in> set (ai_messages t a).
            (content m = streamedContent t
             \<or> (closed t \<and> streamedContent t = [] \<and> content m = generic_error))
          \<and> (streamedContent t \<noteq> [] \<longrightarrow> isLoading m = Some False)
          \<and> (case searchData t of
                None \<Rightarrow> stages_of m = []
              | Some sd \<Rightarrow>
                  if closed t
                  then stages_of m = stages sd \<or> stages_of m = stages sd @ [''writing'']
                  else searchInfo m = Some sd)))"

text \<open>What a received content event marks: without one the accumulated text is empty, and
  once a content event was received or a search record exists the loading flag of the
  message is cleared.\<close>

definition cleared :: "turn \<Rightarrow> app \<Rightarrow> bool" where
  "cleared t a =
     ((\<not> hasReceivedContent t \<longrightarrow> streamedContent t = [])
      \<and> (\<forall>m \<in> set (ai_messages t a).
            hasReceivedContent t \<or> searchData t \<noteq> None \<longrightarrow> isLoading m = Some False))"

text \<open>The fragment an event carries when it is a \<open>content\<close> event: \<open>data.content\<close> as the
  text that \<open>+=\<close> appends.\<close>

definition fragment_of :: "(string \<Rightarrow> jsval option) \<Rightarrow> string \<Rightarrow> string list" where
  "fragment_of parse event_data =
     (case parse event_data of
        None \<Rightarrow> []
      | Some data \<Rightarrow>
          if getprop data ''type'' = Some (JStr ''content'')
          then [ToString (get data ''content'')] else [])"

text \<open>The fragments of the \<open>content\<close> events among the occurrences on a stream, in order,
  up to the occurrence that closes it (an \<open>end\<close> event or a transport error); and whether
  it is a transport error that closes it.\<close>

fun content_fragments :: "(string \<Rightarrow> jsval option) \<Rightarrow> occurrence list \<Rightarrow> string list" where
  "content_fragments parse [] = []"
| "content_fragments parse (OnError # occs) = []"
| "content_fragments parse (OnMessage d # occs) =
     (if event_type parse d = Some (JStr ''end'') then []
      else fragment_of parse d @ content_fragments parse occs)"

fun closed_by_error :: "(string \<Rightarrow> jsval option) \<Rightarrow> occurrence list \<Rightarrow> bool" where
  "closed_by_error parse [] = False"
| "closed_by_error parse (OnError # occs) = True"
| "closed_by_error parse (OnMessage d # occs) =
     (if event_type parse d = Some (JStr ''end'') then False
      else closed_by_error parse occs)"

text \<open>
  The \<open>EventSource\<close> on one frame \<open>data: body\<close> followed by a blank line, for a body
  without a line break: the \<open>data\<close> of the message event it dispatches. \<open>received\<close> is what
  a list of frames delivers to \<open>onmessage\<close>, and \<open>received_types\<close> the \<open>type\<close> the handler
  reads on each.
\<close>

definition frame_data :: "string \<Rightarrow> string option" where
  "frame_data frame =
     (let body = take (length frame - 8) (drop 6 frame)
      in if 8 \<le> length frame \<and> take 6 frame = ''data: ''
            \<and> drop (length frame - 2) frame = [newline, newline]
            \<and> list_all (\<lambda>c. c \<noteq> CHR 0x0A \<and> c \<noteq> CHR 0x0D) body
         then Some body else None)"

definition received :: "string list \<Rightarrow> occurrence list" where
  "received frames =
     concat (map (\<lambda>frame. case frame_data frame of
                             None \<Rightarrow> [] | Some body \<Rightarrow> [OnMessage body]) frames)"

definition received_types :: "string list \<Rightarrow> jsval option list" where
  "received_types frames =
     concat (map (\<lambda>frame. case frame_data frame of
                             None \<Rightarrow> [] | Some body \<Rightarrow> [event_type try_parse body]) frames)"

text \<open>What the page shows for the turn: the stage lists and the bubbles of its messages.\<close>

definition shown_stages :: "turn \<times> app \<Rightarrow> string list list" where
  "shown_stages ta = map stages_of (ai_messages (fst ta) (snd ta))"

definition shown :: "turn \<times> app \<Rightarrow> bubble list" where
  "shown ta = map MessageArea (ai_messages (fst ta) (snd ta))"

text \<open>A first submission, used for the concrete runs below.\<close>

definition example_app :: app where
  "example_app = initial_app\<lparr>currentMessage := ''What is AI?''\<rparr>"

text \<open>The state and the locals of the turn right after it (see \<open>example_submission\<close>).\<close>

definition example_opened :: app where
  "example_opened =
     \<lparr>messages = [\<lparr>id_msg = 1, content = ''Hi there, how can I help you?'', isUser = False,
                   type_msg = ''message'', isLoading = None, searchInfo = None\<rparr>,
                  user_message 2 ''What is AI?'',
                  placeholder 3],
      currentMessage = [],
      checkpointId = JNull\<rparr>"

definition example_turn :: turn where
  "example_turn =
     \<lparr>aiResponseId = 3, url = ''http://localhost:8000/chat_stream/What%20is%20AI%3F'',
      streamedContent = [], searchData = None, hasReceivedContent = False, closed = False\<rparr>"

section \<open>Properties of the stream generator\<close>

lemma on_event_no_checkpoint: "on_event ev = Inr out \<Longrightarrow> filter is_checkpoint out = []"
  by (cases ev) (auto simp: Let_def split: sum.splits list.splits tool_output.splits if_splits)


lemma event_loop_no_checkpoint: "filter is_checkpoint (fst (event_loop steps)) = []"
proof (induction steps rule: event_loop.induct)
  case (3 event rest)
  then show ?case
    by (auto split: sum.splits prod.splits dest: on_event_no_checkpoint)
qed simp_all


text \<open>
  Counted by the \<open>yield\<close> statement that produced them, the events of a turn whose request
  carried no thread id hold exactly one \<open>checkpoint\<close>, it carries the freshly minted id and
  it comes first (the first string on the wire is its frame); those of a turn whose request
  carried a thread id hold none.
\<close>

lemma checkpoint_yielded_once_and_first:
  "filter is_checkpoint (fst (generate_events events uid message None)) = [Checkpoint uid]
   \<and> take 1 (fst (generate_events events uid message None)) = [Checkpoint uid]
   \<and> take 1 (fst (generate_chat_responses events uid message None)) = [wire (Checkpoint uid)]
   \<and> filter is_checkpoint (fst (generate_events events uid message (Some thread_id))) = []"
proof -
  obtain later oc where el: "event_loop events = (later, oc)"
    by (cases "event_loop events")
  with event_loop_no_checkpoint [of events] have "filter is_checkpoint later = []"
    by simp
  with el show ?thesis
    by (simp add: generate_events_def generate_chat_responses_def)
qed




text \<open>
  Claim C3 holds of the intended design and fails on the code: the escaping before the
  \<open>content\<close> event leaves a double quote as it is. For the fragment \<open>say "hi"\<close> the loop
  yields a payload that is not JSON, and \<open>JSON.parse\<close> throws.
\<close>

theorem content_with_double_quote_is_not_json:
  \<open>on_event (on_chat_model_stream (AIMessageChunk ''say "hi"'')) = Inr [Content ''say "hi"'']
   \<and> payload (Content ''say "hi"'') = ''{"type": "content", "content": "say "hi""}''
   \<and> JSON_parse (payload (Content ''say "hi"'')) = Inl SyntaxError\<close>
  by code_simp

text \<open>The same escaping on a single quote and on a backslash: \<open>\'\<close> is no JSON escape, and
  a backslash takes the next character with it (here \<open>\t\<close> becomes a tab). Only the line
  feed comes back as it was sent.\<close>

lemma content_with_single_quote_is_not_json:
  \<open>JSON_parse (payload (Content (safe_content ''it's''))) = Inl SyntaxError\<close>
  by code_simp

lemma content_with_backslash_is_altered:
  \<open>JSON_parse (payload (Content (safe_content (''C:'' @ [backslash] @ ''temp''))))
     = Inr (JObj [(''type'', JStr ''content''), (''content'', JStr (''C:'' @ [CHR 0x09] @ ''emp''))])\<close>
  by code_simp

lemma content_with_line_feed_round_trips:
  \<open>JSON_parse (payload (Content (safe_content (''a'' @ [newline] @ ''b''))))
     = Inr (JObj [(''type'', JStr ''content''), (''content'', JStr (''a'' @ [newline] @ ''b''))])\<close>
  by code_simp

text \<open>Where the escaping does work: a fragment of plain characters and line feeds comes
  back from \<open>JSON.parse\<close> as it was sent.\<close>

lemma replace_absent: "old \<notin> set s \<Longrightarrow> replace s old new = s"
  by (induction s) auto

lemma plain_or_newline_no_squote:
  assumes "list_all (\<lambda>c. plain c \<or> c = newline) f"
  shows "squote \<notin> set f"
  using assms by (induction f) (auto simp: plain_def newline_def squote_def)

lemma lex_plain_string:
  assumes "list_all (\<lambda>c. plain c \<or> c = newline) f"
  shows "lex (Str acc) ts (replace f newline [backslash, CHR ''n''] @ rest)
           = lex (Str (rev f @ acc)) ts rest"
  using assms
proof (induction f arbitrary: acc)
  case Nil
  then show ?case by simp
next
  case (Cons c f)
  show ?case
  proof (cases "c = newline")
    case True
    with Cons show ?thesis
      by (simp add: newline_def backslash_def dquote_def unescape_def)
  next
    case False
    with Cons.prems have "plain c" by simp
    then have "c \<noteq> dquote" "c \<noteq> backslash" "\<not> code c < 32"
      by (auto simp: plain_def)
    with False Cons show ?thesis by simp
  qed
qed

lemma lex_content_prefix:
  \<open>lex Top [] (''{"type": "content", "content": "'' @ rest)
     = lex (Str []) [Colon, TStr ''content'', Comma, TStr ''content'', Colon, TStr ''type'', LBrace] rest\<close>
  by (simp add: top_char_def is_ws_def dquote_def backslash_def code_def)

lemma lex_content_suffix:
  \<open>lex (Str s) ts ''"}'' = Inr (rev (RBrace # TStr (rev s) # ts))\<close>
  by (simp add: top_char_def is_ws_def dquote_def)

lemma plain_fragment_round_trips:
  assumes "list_all (\<lambda>c. plain c \<or> c = newline) f"
  shows "JSON_parse (payload (Content (safe_content f)))
           = Inr (JObj [(''type'', JStr ''content''), (''content'', JStr f)])"
proof -
  have sc: "safe_content f = replace f newline [backslash, CHR ''n'']"
    using plain_or_newline_no_squote [OF assms] by (simp add: safe_content_def replace_absent)
  have "lex Top [] (payload (Content (safe_content f)))
          = Inr [LBrace, TStr ''type'', Colon, TStr ''content'', Comma, TStr ''content'', Colon,
                 TStr f, RBrace]"
    unfolding sc payload.simps
    by (simp only: append_assoc lex_content_prefix lex_plain_string [OF assms] lex_content_suffix)
       simp
  then show ?thesis
    by (simp add: JSON_parse_def wants_value_def)
qed

text \<open>Where it does not, the payload can even change its \<open>type\<close>: the fragment closes the
  string and adds keys of its own, and the last \<open>type\<close> key wins.\<close>

lemma content_fragment_can_pose_as_checkpoint:
  \<open>event_type try_parse
     (payload (Content (safe_content ''x", "type": "checkpoint", "checkpoint_id": "y'')))
     = Some (JStr ''checkpoint'')\<close>
  by code_simp

text \<open>
  Claim C4 holds of the intended design and fails on the code, by the defect of claim C3:
  what the client takes for a \<open>checkpoint\<close> event is decided by the \<open>type\<close> it parses from
  the frame, and a \<open>content\<close> fragment is framed without escaping its double quotes. For
  the fragment \<open>x", "type": "checkpoint", "checkpoint_id": "y\<close> a turn whose request
  carried a thread id puts a \<open>checkpoint\<close> event on the wire, a turn whose request carried
  none puts two, and the client stores \<open>y\<close> as the thread id.
\<close>

theorem content_fragment_is_read_as_checkpoint:
  \<open>received_types (fst (generate_chat_responses
      [Next (on_chat_model_stream
         (AIMessageChunk ''x", "type": "checkpoint", "checkpoint_id": "y''))]
      ''u'' ''And then?'' (Some ''t'')))
     = [Some (JStr ''checkpoint''), Some (JStr ''end'')]
   \<and> received_types (fst (generate_chat_responses
      [Next (on_chat_model_stream
         (AIMessageChunk ''x", "type": "checkpoint", "checkpoint_id": "y''))]
      ''u'' ''Hello'' None))
     = [Some (JStr ''checkpoint''), Some (JStr ''checkpoint''), Some (JStr ''end'')]
   \<and> checkpointId (snd (run try_parse (example_turn, example_opened)
      (received (fst (generate_chat_responses
         [Next (on_chat_model_stream
            (AIMessageChunk ''x", "type": "checkpoint", "checkpoint_id": "y''))]
         ''u'' ''And then?'' (Some ''t'')))))) = JStr ''y''\<close>
  by code_simp

text \<open>With a fragment that needs no escaping the frames read as they were yielded.\<close>

lemma plain_stream_checkpoint_types:
  \<open>received_types (fst (generate_chat_responses
      [Next (on_chat_model_stream (AIMessageChunk ''Hello''))] ''u'' ''Hello'' None))
     = [Some (JStr ''checkpoint''), Some (JStr ''content''), Some (JStr ''end'')]\<close>
  by code_simp

section \<open>Properties of the client\<close>

subsection \<open>Submission\<close>

lemma foldl_max_ge_init: "(a::int) \<le> foldl max a xs"
proof (induction xs arbitrary: a)
  case (Cons x xs)
  have "a \<le> max a x" by simp
  also have "\<dots> \<le> foldl max (max a x) xs" by (rule Cons.IH)
  finally show ?case by simp
qed simp

lemma foldl_max_ge_elem: "x \<in> set xs \<Longrightarrow> (x::int) \<le> foldl max a xs"
proof (induction xs arbitrary: a)
  case (Cons y ys)
  show ?case
  proof (cases "x = y")
    case True
    have "x \<le> max a y" using True by simp
    also have "\<dots> \<le> foldl max (max a y) ys" by (rule foldl_max_ge_init)
    finally show ?thesis by simp
  next
    case False
    with Cons show ?thesis by simp
  qed
qed simp

lemma newMessageId_fresh:
  assumes "m \<in> set msgs"
  shows "id_msg m < newMessageId msgs"
proof (cases msgs)
  case Nil
  with assms show ?thesis by simp
next
  case (Cons m0 ms)
  with assms have "m = m0 \<or> id_msg m \<in> set (map id_msg ms)" by auto
  then have "id_msg m \<le> foldl max (id_msg m0) (map id_msg ms)"
    using foldl_max_ge_init foldl_max_ge_elem by blast
  with Cons show ?thesis by (simp add: newMessageId_def)
qed

lemma handleSubmit_opened:
  assumes "trim (currentMessage a) \<noteq> []"
  shows "\<exists>u. handleSubmit False a =
           (a\<lparr>messages := messages a @ [user_message (newMessageId (messages a)) (currentMessage a),
                                          placeholder (newMessageId (messages a) + 1)],
               currentMessage := []\<rparr>,
            Some \<lparr>aiResponseId = newMessageId (messages a) + 1, url = u, streamedContent = [],
                  searchData = None, hasReceivedContent = False, closed = False\<rparr>)"
  using assms by (simp add: handleSubmit_def Let_def)

lemma handleSubmit_Some:
  assumes "handleSubmit es a = (a0, Some t0)"
  shows "es = False \<and> trim (currentMessage a) \<noteq> []"
  using assms by (auto simp: handleSubmit_def Let_def split: if_splits)

lemma all_space_trim:
  assumes "\<forall>c \<in> set s. is_js_space c"
  shows "trim s = []"
  using assms by (auto simp: trim_def dest: set_dropWhileD)

lemma handleSubmit_start:
  assumes "handleSubmit es a = (a0, Some t0)"
  shows "ai_messages t0 a0 = [placeholder (aiResponseId t0)] \<and> streamedContent t0 = []
         \<and> searchData t0 = None \<and> \<not> closed t0"
proof -
  from handleSubmit_Some [OF assms] have es: "es = False" and tr: "trim (currentMessage a) \<noteq> []"
    by simp_all
  from handleSubmit_opened [OF tr] assms es obtain u where
    a0: "a0 = a\<lparr>messages := messages a @ [user_message (newMessageId (messages a)) (currentMessage a),
                                          placeholder (newMessageId (messages a) + 1)],
               currentMessage := []\<rparr>"
    and t0: "t0 = \<lparr>aiResponseId = newMessageId (messages a) + 1, url = u, streamedContent = [],
                  searchData = None, hasReceivedContent = False, closed = False\<rparr>"
    by auto
  have "id_msg m \<noteq> newMessageId (messages a) + 1" if "m \<in> set (messages a)" for m
    using newMessageId_fresh [OF that] by simp
  then have "filter (\<lambda>msg. id_msg msg = newMessageId (messages a) + 1) (messages a) = []"
    by (simp add: filter_empty_conv)
  with a0 t0 show ?thesis
    by (simp add: ai_messages_def user_message_def placeholder_def)
qed

lemma consistent_start:
  assumes "handleSubmit es a = (a0, Some t0)"
  shows "consistent t0 a0"
  using handleSubmit_start [OF assms]
  by (simp add: consistent_def placeholder_def stages_of_def)

lemma ai_messages_update:
  assumes "\<And>m. id_msg (f m) = id_msg m" and "aiResponseId t' = aiResponseId t"
  shows "ai_messages t' (update_ai (aiResponseId t) f a) = map f (ai_messages t a)"
proof -
  have "filter (\<lambda>msg. id_msg msg = n) (map (\<lambda>msg. if id_msg msg = n then f msg else msg) ms)
          = map f (filter (\<lambda>msg. id_msg msg = n) ms)" for n ms
    using assms(1) by (induction ms) auto
  with assms(2) show ?thesis
    by (simp add: ai_messages_def update_ai_def)
qed

lemma ai_messages_same:
  assumes "aiResponseId t' = aiResponseId t" and "messages a' = messages a"
  shows "ai_messages t' a' = ai_messages t a"
  using assms by (simp add: ai_messages_def)

lemma on_checkpoint_consistent:
  assumes "consistent t a" "on_checkpoint t a data = (t', a')"
  shows "consistent t' a'"
proof -
  from assms(2) have "t' = t" "ai_messages t' a' = ai_messages t a"
    by (auto simp: on_checkpoint_def ai_messages_def)
  with assms(1) show ?thesis by (simp add: consistent_def)
qed

lemma on_content_consistent:
  assumes "consistent t a" "\<not> closed t" "on_content t a data = (t', a')"
  shows "consistent t' a'"
  using assms
  by (auto simp: on_content_def Let_def consistent_def ai_messages_update stages_of_def
      split: option.splits)

lemma next_stages_ok:
  assumes "case sd of None \<Rightarrow> True
           | Some s \<Rightarrow> ''searching'' \<notin> set (tl (stages s)) \<and> ''writing'' \<notin> set (stages s)"
    and "stage \<noteq> ''searching''" "stage \<noteq> ''writing''"
  shows "''searching'' \<notin> set (tl (next_stages sd stage)) \<and> ''writing'' \<notin> set (next_stages sd stage)"
  using assms by (cases sd) (auto simp: next_stages_def tl_append split: list.splits)

lemma set_search_consistent:
  assumes "consistent t a" "\<not> closed t"
    and "''searching'' \<notin> set (tl (stages si)) \<and> ''writing'' \<notin> set (stages si)"
    and "t' = t\<lparr>searchData := Some si\<rparr>"
    and "a' = update_ai (aiResponseId t)
            (\<lambda>msg. msg\<lparr>content := streamedContent t, searchInfo := Some si, isLoading := Some False\<rparr>) a"
  shows "consistent t' a'"
  using assms by (auto simp: consistent_def ai_messages_update)

lemma on_search_start_consistent:
  assumes "consistent t a" "\<not> closed t" "on_search_start t a data = (t', a')"
  shows "consistent t' a'"
  using assms(3)
  by (intro set_search_consistent [OF assms(1,2)]) (auto simp: on_search_start_def Let_def)

lemma on_search_results_consistent:
  assumes "consistent t a" "\<not> closed t" "on_search_results parse t a data = (t', a')"
  shows "consistent t' a'"
proof (cases "case get data ''urls'' of JStr s \<Rightarrow> parse s | v \<Rightarrow> Some v")
  case None
  with assms show ?thesis by (simp add: on_search_results_def)
next
  case (Some us)
  from assms(1) have sd: "case searchData t of None \<Rightarrow> True
           | Some s \<Rightarrow> ''searching'' \<notin> set (tl (stages s)) \<and> ''writing'' \<notin> set (stages s)"
    by (simp add: consistent_def)
  let ?si = "\<lparr>stages = next_stages (searchData t) ''reading'', query = query_or_empty (searchData t),
              urls = us, error = None\<rparr>"
  have ok: "''searching'' \<notin> set (tl (stages ?si)) \<and> ''writing'' \<notin> set (stages ?si)"
    using next_stages_ok [OF sd, of "''reading''"] by simp
  from assms(3) Some show ?thesis
    by (intro set_search_consistent [OF assms(1,2) ok]) (auto simp: on_search_results_def Let_def)
qed

lemma on_search_error_consistent:
  assumes "consistent t a" "\<not> closed t" "on_search_error t a data = (t', a')"
  shows "consistent t' a'"
proof -
  from assms(1) have sd: "case searchData t of None \<Rightarrow> True
           | Some s \<Rightarrow> ''searching'' \<notin> set (tl (stages s)) \<and> ''writing'' \<notin> set (stages s)"
    by (simp add: consistent_def)
  let ?si = "\<lparr>stages = next_stages (searchData t) ''error'', query = query_or_empty (searchData t),
              urls = JArr [], error = Some (get data ''error'')\<rparr>"
  have ok: "''searching'' \<notin> set (tl (stages ?si)) \<and> ''writing'' \<notin> set (stages ?si)"
    using next_stages_ok [OF sd, of "''error''"] by simp
  from assms(3) show ?thesis
    by (intro set_search_consistent [OF assms(1,2) ok]) (auto simp: on_search_error_def Let_def)
qed

lemma on_end_consistent:
  assumes "consistent t a" "\<not> closed t" "on_end t a = (t', a')"
  shows "consistent t' a'"
proof (cases "searchData t")
  case None
  with assms(3) have "t' = t\<lparr>closed := True\<rparr>" "ai_messages t' a' = ai_messages t a"
    by (auto simp: on_end_def ai_messages_def)
  with assms(1,2) None show ?thesis
    by (simp add: consistent_def)
next
  case (Some sd)
  with assms show ?thesis
    by (auto simp: on_end_def consistent_def ai_messages_update stages_of_def)
qed

lemma onerror_consistent:
  assumes "consistent t a" "\<not> closed t" "onerror t a = (t', a')"
  shows "consistent t' a'"
proof (cases "streamedContent t = []")
  case False
  with assms(3) have "t' = t\<lparr>closed := True\<rparr>" "ai_messages t' a' = ai_messages t a"
    by (auto simp: onerror_def ai_messages_def)
  with assms(1,2) False show ?thesis
    by (auto simp: consistent_def stages_of_def split: option.splits)
next
  case True
  with assms show ?thesis
    by (auto simp: onerror_def consistent_def ai_messages_update stages_of_def
        split: option.splits)
qed

lemma onmessage_cases [consumes 1, case_names skip checkpoint content search_start search_results search_error finish]:
  assumes "onmessage parse t a d = r"
  obtains "r = (t, a)" "event_type parse d \<noteq> Some (JStr ''end'')"
  | data where "r = on_checkpoint t a data" "event_type parse d \<noteq> Some (JStr ''end'')"
  | data where "r = on_content t a data" "event_type parse d \<noteq> Some (JStr ''end'')"
      "parse d = Some data"
  | data where "r = on_search_start t a data" "event_type parse d \<noteq> Some (JStr ''end'')"
      "parse d = Some data"
  | data where "r = on_search_results parse t a data" "event_type parse d \<noteq> Some (JStr ''end'')"
  | data where "r = on_search_error t a data" "event_type parse d \<noteq> Some (JStr ''end'')"
  | "r = on_end t a" "event_type parse d = Some (JStr ''end'')"
proof (cases "parse d")
  case None
  with assms that(1) show ?thesis by (simp add: onmessage_def event_type_def)
next
  case (Some data)
  show ?thesis
  proof (cases "getprop data ''type''")
    case None
    with Some assms that(1) show ?thesis by (simp add: onmessage_def event_type_def)
  next
    case ty: (Some ty)
    have et: "event_type parse d = Some ty" using Some ty by (simp add: event_type_def)
    consider "ty = JStr ''checkpoint''" | "ty = JStr ''content''" | "ty = JStr ''search_start''"
      | "ty = JStr ''search_results''" | "ty = JStr ''search_error''" | "ty = JStr ''end''"
      | "ty \<noteq> JStr ''checkpoint''" "ty \<noteq> JStr ''content''" "ty \<noteq> JStr ''search_start''"
        "ty \<noteq> JStr ''search_results''" "ty \<noteq> JStr ''search_error''" "ty \<noteq> JStr ''end''"
      by blast
    then show ?thesis
    proof cases
      case 1
      with Some ty assms et show ?thesis by (intro that(2) [of data]) (simp_all add: onmessage_def)
    next
      case 2
      with Some ty assms et show ?thesis by (intro that(3) [of data]) (simp_all add: onmessage_def)
    next
      case 3
      with Some ty assms et show ?thesis by (intro that(4) [of data]) (simp_all add: onmessage_def)
    next
      case 4
      with Some ty assms et show ?thesis by (intro that(5) [of data]) (simp_all add: onmessage_def)
    next
      case 5
      with Some ty assms et show ?thesis by (intro that(6) [of data]) (simp_all add: onmessage_def)
    next
      case 6
      with Some ty assms et show ?thesis by (intro that(7)) (simp_all add: onmessage_def)
    next
      case 7
      with Some ty assms et show ?thesis by (intro that(1)) (simp_all add: onmessage_def)
    qed
  qed
qed

lemma onmessage_consistent:
  assumes "consistent t a" "\<not> closed t" "onmessage parse t a d = (t', a')"
  shows "consistent t' a'"
  using assms(3)
proof (cases rule: onmessage_cases)
  case skip
  with assms show ?thesis by simp
next
  case (checkpoint data)
  with assms show ?thesis by (metis on_checkpoint_consistent)
next
  case (content data)
  with assms show ?thesis by (metis on_content_consistent)
next
  case (search_start data)
  with assms show ?thesis by (metis on_search_start_consistent)
next
  case (search_results data)
  with assms show ?thesis by (metis on_search_results_consistent)
next
  case (search_error data)
  with assms show ?thesis by (metis on_search_error_consistent)
next
  case finish
  with assms show ?thesis by (metis on_end_consistent)
qed

lemma dispatch_consistent:
  assumes "consistent t a" "dispatch parse (t, a) occ = (t', a')"
  shows "consistent t' a'"
proof (cases "closed t")
  case True
  with assms show ?thesis by simp
next
  case False
  show ?thesis
  proof (cases occ)
    case (OnMessage d)
    with assms False show ?thesis by (simp add: onmessage_consistent)
  next
    case OnError
    with assms False show ?thesis by (simp add: onerror_consistent)
  qed
qed

subsection \<open>Runs\<close>

lemma run_Nil: "run parse ta [] = ta"
  by (simp add: run_def)

lemma run_Cons: "run parse ta (occ # occs) = run parse (dispatch parse ta occ) occs"
  by (simp add: run_def)

lemma run_snoc: "run parse ta (occs @ [occ]) = dispatch parse (run parse ta occs) occ"
  by (simp add: run_def)

lemma run_consistent:
  assumes "consistent t a" "run parse (t, a) occs = (t', a')"
  shows "consistent t' a'"
  using assms
proof (induction occs arbitrary: t a)
  case Nil
  then show ?case by (simp add: run_Nil)
next
  case (Cons occ occs)
  obtain t1 a1 where d: "dispatch parse (t, a) occ = (t1, a1)"
    by (cases "dispatch parse (t, a) occ")
  from dispatch_consistent [OF Cons.prems(1) d] have "consistent t1 a1" .
  moreover from Cons.prems(2) d have "run parse (t1, a1) occs = (t', a')"
    by (simp add: run_Cons)
  ultimately show ?case by (rule Cons.IH)
qed

lemma turn_of_Some:
  assumes "turn_of parse a occs = Some (t, a')"
  obtains a0 t0 where "handleSubmit False a = (a0, Some t0)" "run parse (t0, a0) occs = (t, a')"
  using assms by (auto simp: turn_of_def split: prod.splits option.splits)

lemma turn_of_consistent:
  assumes "turn_of parse a occs = Some (t, a')"
  shows "consistent t a'"
  using assms by (elim turn_of_Some) (metis consistent_start run_consistent)

lemma consistent_single:
  assumes "consistent t a"
  obtains m where "ai_messages t a = [m]"
  using assms by (auto simp: consistent_def length_Suc_conv)

lemma example_submission: "handleSubmit False example_app = (example_opened, Some example_turn)"
  by code_simp

lemma example_turn_of:
  "turn_of parse example_app occs = Some (run parse (example_turn, example_opened) occs)"
  by (simp add: turn_of_def example_submission)

subsection \<open>Events that are skipped\<close>

text \<open>
  Claim C8. An event whose payload \<open>JSON.parse\<close> rejects, and likewise an event whose
  \<open>type\<close> is none of the six the handler knows (or is missing, or cannot be read because the
  payload is \<open>null\<close>), leaves the locals of the turn and the React state exactly as they
  were, and the events after it are processed as if it had not been there.
\<close>

theorem unreadable_or_unknown_event_is_skipped:
  assumes "parse d = None \<or> event_type parse d \<notin> set recognised"
  shows "onmessage parse t a d = (t, a)
         \<and> run parse (t, a) (OnMessage d # rest) = run parse (t, a) rest"
proof -
  from assms have "event_type parse d \<notin> set recognised"
    by (auto simp: event_type_def recognised_def)
  then have "onmessage parse t a d = (t, a)"
    by (auto simp: onmessage_def event_type_def recognised_def split: option.splits)
  then show ?thesis
    by (simp add: run_Cons)
qed

theorem unreadable_or_unknown_event_is_skipped_witness:
  \<open>try_parse ''{"type": "content", "content": "a"b"}'' = None
   \<and> onmessage try_parse example_turn example_opened ''{"type": "content", "content": "a"b"}''
       = (example_turn, example_opened)
   \<and> event_type try_parse ''{"type": "ping"}'' = Some (JStr ''ping'')
   \<and> onmessage try_parse example_turn example_opened ''{"type": "ping"}''
       = (example_turn, example_opened)\<close>
proof -
  have h1: \<open>try_parse ''{"type": "content", "content": "a"b"}'' = None
            \<or> event_type try_parse ''{"type": "content", "content": "a"b"}'' \<notin> set recognised\<close>
    by code_simp
  have h2: \<open>try_parse ''{"type": "ping"}'' = None
            \<or> event_type try_parse ''{"type": "ping"}'' \<notin> set recognised\<close>
    by code_simp
  have v1: \<open>try_parse ''{"type": "content", "content": "a"b"}'' = None\<close>
    by code_simp
  have v2: \<open>event_type try_parse ''{"type": "ping"}'' = Some (JStr ''ping'')\<close>
    by code_simp
  show ?thesis
    using v1 v2
      unreadable_or_unknown_event_is_skipped [OF h1, of example_turn example_opened "[]"]
      unreadable_or_unknown_event_is_skipped [OF h2, of example_turn example_opened "[]"]
    by simp
qed

subsection \<open>Blank submissions\<close>

text \<open>
  Claim C10. When the input text is empty or consists of white space only, \<open>handleSubmit\<close>
  changes neither the message list nor the stored checkpoint id (the React state is
  returned as it was) and opens no stream, whether or not \<open>new EventSource\<close> would have
  thrown.
\<close>

theorem blank_submission_is_a_no_op:
  assumes "\<forall>c \<in> set (currentMessage a). is_js_space c"
  shows "handleSubmit es_throws a = (a, None)"
  using assms by (simp add: handleSubmit_def all_space_trim)

theorem blank_submission_is_a_no_op_witness:
  "list_all is_js_space [CHR '' '', CHR 0x09, CHR 0xA0] \<and>
   handleSubmit False (initial_app\<lparr>currentMessage := [CHR '' '', CHR 0x09, CHR 0xA0]\<rparr>)
     = (initial_app\<lparr>currentMessage := [CHR '' '', CHR 0x09, CHR 0xA0]\<rparr>, None)"
proof -
  have h: "\<forall>c \<in> set (currentMessage
             (initial_app\<lparr>currentMessage := [CHR '' '', CHR 0x09, CHR 0xA0]\<rparr>)). is_js_space c"
    by (simp add: is_js_space_def code_def)
  show ?thesis
    using h blank_submission_is_a_no_op [OF h, of False] by simp
qed

subsection \<open>Message ids\<close>

text \<open>When the stream opens, the two new messages get the ids \<open>newMessageId\<close> and
  \<open>newMessageId + 1\<close>, both above every id in the list, so ids that were distinct stay
  distinct.\<close>

lemma handleSubmit_fresh_ids:
  assumes "handleSubmit False a = (a0, Some t0)"
  shows "map id_msg (messages a0)
           = map id_msg (messages a) @ [newMessageId (messages a), newMessageId (messages a) + 1]
         \<and> aiResponseId t0 = newMessageId (messages a) + 1
         \<and> (\<forall>m \<in> set (messages a). id_msg m < newMessageId (messages a))
         \<and> (distinct (map id_msg (messages a)) \<longrightarrow> distinct (map id_msg (messages a0)))"
proof -
  from handleSubmit_Some [OF assms] have tr: "trim (currentMessage a) \<noteq> []" by simp
  have fresh: "\<forall>m \<in> set (messages a). id_msg m < newMessageId (messages a)"
    using newMessageId_fresh by blast
  from handleSubmit_opened [OF tr] assms
  have ids: "map id_msg (messages a0)
           = map id_msg (messages a) @ [newMessageId (messages a), newMessageId (messages a) + 1]"
    and rid: "aiResponseId t0 = newMessageId (messages a) + 1"
    by (auto simp: user_message_def placeholder_def)
  from fresh have "newMessageId (messages a) \<notin> set (map id_msg (messages a))"
    "newMessageId (messages a) + 1 \<notin> set (map id_msg (messages a))"
    by fastforce+
  with ids rid fresh show ?thesis by simp
qed

text \<open>
  Claim C9 holds of the intended design and fails on the code. The ids are assigned as the
  claim says, but when \<open>new EventSource(url)\<close> throws, the \<open>catch\<close> block appends the
  connection-error message under \<open>newMessageId + 1\<close>, the id the placeholder appended just
  before already has. After such a first submission the ids are 1, 2, 3, 3.
\<close>

theorem connect_failure_duplicates_the_message_id:
  "map id_msg (messages (fst (handleSubmit True example_app))) = [1, 2, 3, 3]"
  by code_simp

subsection \<open>Search stages\<close>

text \<open>
  Claim C6, as stated, fails: a \<open>search_start\<close> event does not add to the recorded stages,
  it replaces the record. After \<open>search_start\<close> and \<open>search_results\<close> the stages are
  \<open>searching\<close>, \<open>reading\<close>; a second \<open>search_start\<close> leaves \<open>searching\<close> alone.
\<close>

theorem second_search_start_drops_reading:
  "shown_stages (run try_parse (example_turn, example_opened)
     [OnMessage (payload (SearchStart ''weather in Paris'')),
      OnMessage (payload (SearchResults (json_dumps [''https://weather.com/paris''])))])
     = [[''searching'', ''reading'']]
   \<and> shown_stages (run try_parse (example_turn, example_opened)
     [OnMessage (payload (SearchStart ''weather in Paris'')),
      OnMessage (payload (SearchResults (json_dumps [''https://weather.com/paris'']))),
      OnMessage (payload (SearchStart ''weather in Lyon''))])
     = [[''searching'']]"
  by code_simp

text \<open>
  Claim C6, amended. Every \<open>search_start\<close> event the handler processes replaces the search
  record of the turn by a fresh one: its stages are \<open>searching\<close> alone, its query is the
  query of the event, its url list is empty; and every message of the turn gets this
  record.
\<close>

theorem search_start_replaces_the_search_record:
  assumes "parse d = Some data" and "getprop data ''type'' = Some (JStr ''search_start'')"
  shows "searchData (fst (onmessage parse t a d))
           = Some \<lparr>stages = [''searching''], query = get data ''query'', urls = JArr [],
                   error = None\<rparr>
         \<and> map searchInfo (ai_messages t (snd (onmessage parse t a d)))
           = map (\<lambda>m. Some \<lparr>stages = [''searching''], query = get data ''query'', urls = JArr [],
                             error = None\<rparr>) (ai_messages t a)"
proof -
  from assms have "onmessage parse t a d = on_search_start t a data"
    by (simp add: onmessage_def)
  then show ?thesis
    by (simp add: on_search_start_def Let_def ai_messages_update)
qed

theorem search_start_replaces_the_search_record_witness:
  \<open>try_parse (payload (SearchStart ''weather in Lyon''))
     = Some (JObj [(''type'', JStr ''search_start''), (''query'', JStr ''weather in Lyon'')])
   \<and> searchData (fst (onmessage try_parse example_turn example_opened
                        (payload (SearchStart ''weather in Lyon''))))
     = Some \<lparr>stages = [''searching''], query = JStr ''weather in Lyon'', urls = JArr [],
             error = None\<rparr>\<close>
proof -
  let ?data = "JObj [(''type'', JStr ''search_start''), (''query'', JStr ''weather in Lyon'')]"
  have h1: "try_parse (payload (SearchStart ''weather in Lyon'')) = Some ?data"
    by code_simp
  have h2: "getprop ?data ''type'' = Some (JStr ''search_start'')"
    by simp
  have q: "get ?data ''query'' = JStr ''weather in Lyon''"
    by (simp add: get_def)
  show ?thesis
    using h1 q
      search_start_replaces_the_search_record
        [of try_parse "payload (SearchStart ''weather in Lyon'')" ?data example_turn
          example_opened, OF h1 h2]
    by simp
qed

subsection \<open>The end of a turn\<close>

lemma is_end_onmessage:
  assumes "event_type parse d = Some (JStr ''end'')"
  shows "onmessage parse t a d = on_end t a"
proof -
  from assms obtain data where "parse d = Some data" "getprop data ''type'' = Some (JStr ''end'')"
    by (auto simp: event_type_def split: option.splits)
  then show ?thesis
    by (simp add: onmessage_def)
qed

lemma MessageArea_never_blank: "MessageArea m \<noteq> Text []"
  by (simp add: MessageArea_def)

lemma generic_error_not_empty: "generic_error \<noteq> []"
  by (simp add: generic_error_def)

lemma consistent_text:
  assumes "consistent t a" "streamedContent t \<noteq> []"
  shows "map content (ai_messages t a) = [streamedContent t]
         \<and> map MessageArea (ai_messages t a) = [Text (streamedContent t)]"
proof -
  from assms(1) obtain m where m: "ai_messages t a = [m]"
    by (rule consistent_single)
  from assms have "content m = streamedContent t" "isLoading m = Some False"
    unfolding consistent_def m by auto
  with m assms(2) show ?thesis
    by (simp add: MessageArea_def)
qed

lemma terminating_step:
  assumes "consistent t a" "\<not> closed t" "fin = OnError \<or> is_end parse fin"
    and "dispatch parse (t, a) fin = (t', a')"
  shows "closed t' \<and> streamedContent t' = streamedContent t
         \<and> (streamedContent t = [] \<and> fin = OnError \<longrightarrow>
              map MessageArea (ai_messages t' a') = [Text generic_error])"
proof (cases fin)
  case OnError
  from assms(1) obtain m where m: "ai_messages t a = [m]"
    by (rule consistent_single)
  from OnError assms(2,4) have oe: "onerror t a = (t', a')" by simp
  show ?thesis
  proof (cases "streamedContent t = []")
    case True
    with oe m show ?thesis
      by (auto simp: onerror_def ai_messages_update MessageArea_def generic_error_not_empty)
  next
    case False
    with oe show ?thesis by (auto simp: onerror_def)
  qed
next
  case (OnMessage d)
  with assms(3) have "event_type parse d = Some (JStr ''end'')"
    by (simp add: is_end_def)
  from is_end_onmessage [OF this] OnMessage assms(2,4) have "on_end t a = (t', a')"
    by simp
  with OnMessage show ?thesis by (auto simp: on_end_def)
qed

lemma no_blank_bubble: "Text [] \<notin> set (map MessageArea ms)"
  by (induction ms) (simp_all add: MessageArea_def)

text \<open>
  Claim C5, as stated, fails: the error handler tests the accumulated text, not whether a
  \<open>content\<close> event arrived. After one \<open>content\<close> event with an empty fragment and a
  transport error, the message shows the generic error sentence.
\<close>

theorem empty_fragment_then_error_shows_generic_error:
  "hasReceivedContent (fst (run try_parse (example_turn, example_opened)
      [OnMessage (payload (Content [])), OnError])) = True
   \<and> streamedContent (fst (run try_parse (example_turn, example_opened)
      [OnMessage (payload (Content [])), OnError])) = []
   \<and> shown (run try_parse (example_turn, example_opened)
      [OnMessage (payload (Content [])), OnError])
     = [Text ''Sorry, there was an error processing your request.'']"
  by code_simp

text \<open>An \<open>end\<close> event on a turn that received nothing leaves the placeholder as it is: the
  typing animation stays.\<close>

lemma end_without_content_keeps_the_typing_animation:
  "shown (run try_parse (example_turn, example_opened) [OnMessage (payload End)])
     = [PremiumTypingAnimation]"
  by code_simp

lemma cleared_start:
  assumes "handleSubmit es a = (a0, Some t0)"
  shows "cleared t0 a0"
proof -
  from handleSubmit_Some [OF assms] have "es = False" "trim (currentMessage a) \<noteq> []"
    by simp_all
  with handleSubmit_opened [of a] assms have "\<not> hasReceivedContent t0" "searchData t0 = None"
    by auto
  with handleSubmit_start [OF assms] show ?thesis
    by (simp add: cleared_def)
qed

lemma onmessage_cleared:
  assumes "cleared t a" "onmessage parse t a d = (t', a')"
  shows "cleared t' a'"
  using assms(2)
proof (cases rule: onmessage_cases)
  case skip
  with assms(1) show ?thesis by simp
next
  case (checkpoint data)
  with assms(1) show ?thesis
    by (auto simp: on_checkpoint_def ai_messages_def cleared_def)
next
  case (content data)
  with assms(1) show ?thesis
    by (auto simp: on_content_def Let_def ai_messages_update cleared_def)
next
  case (search_start data)
  with assms(1) show ?thesis
    by (auto simp: on_search_start_def Let_def ai_messages_update cleared_def)
next
  case (search_results data)
  show ?thesis
  proof (cases "case get data ''urls'' of JStr s \<Rightarrow> parse s | v \<Rightarrow> Some v")
    case None
    with search_results assms(1) show ?thesis
      by (simp add: on_search_results_def)
  next
    case (Some us)
    with search_results assms(1) show ?thesis
      by (auto simp: on_search_results_def Let_def ai_messages_update cleared_def)
  qed
next
  case (search_error data)
  with assms(1) show ?thesis
    by (auto simp: on_search_error_def Let_def ai_messages_update cleared_def)
next
  case finish
  show ?thesis
  proof (cases "searchData t")
    case None
    with finish assms(1) show ?thesis
      by (auto simp: on_end_def ai_messages_def cleared_def)
  next
    case (Some sd)
    with finish assms(1) show ?thesis
      by (auto simp: on_end_def ai_messages_update cleared_def)
  qed
qed

lemma onerror_cleared:
  assumes "cleared t a" "onerror t a = (t', a')"
  shows "cleared t' a'"
proof (cases "streamedContent t = []")
  case True
  with assms show ?thesis
    by (auto simp: onerror_def ai_messages_update cleared_def)
next
  case False
  with assms show ?thesis
    by (auto simp: onerror_def ai_messages_def cleared_def)
qed

lemma dispatch_cleared:
  assumes "cleared t a" "dispatch parse (t, a) occ = (t', a')"
  shows "cleared t' a'"
proof (cases "closed t")
  case True
  with assms show ?thesis by simp
next
  case False
  show ?thesis
  proof (cases occ)
    case (OnMessage d)
    with assms False show ?thesis by (simp add: onmessage_cleared)
  next
    case OnError
    with assms False show ?thesis by (simp add: onerror_cleared)
  qed
qed

lemma run_cleared:
  assumes "cleared t a" "run parse (t, a) occs = (t', a')"
  shows "cleared t' a'"
  using assms
proof (induction occs arbitrary: t a)
  case Nil
  then show ?case by (simp add: run_Nil)
next
  case (Cons occ occs)
  obtain t1 a1 where d: "dispatch parse (t, a) occ = (t1, a1)"
    by (cases "dispatch parse (t, a) occ")
  from dispatch_cleared [OF Cons.prems(1) d] have "cleared t1 a1" .
  moreover from Cons.prems(2) d have "run parse (t1, a1) occs = (t', a')"
    by (simp add: run_Cons)
  ultimately show ?case by (rule Cons.IH)
qed

lemma turn_of_cleared:
  assumes "turn_of parse a occs = Some (t, a')"
  shows "cleared t a'"
  using assms by (elim turn_of_Some) (metis cleared_start run_cleared)

lemma end_step_waiting:
  assumes "consistent t a" "cleared t a" "\<not> closed t" "is_end parse fin"
    and "dispatch parse (t, a) fin = (t', a')"
    and "streamedContent t = []" "hasReceivedContent t \<or> searchData t \<noteq> None"
  shows "map MessageArea (ai_messages t' a') = [WaitingForResponse]
         \<and> hasReceivedContent t' = hasReceivedContent t \<and> searchData t' = searchData t"
proof -
  from assms(4) obtain d where occ: "fin = OnMessage d"
    and et: "event_type parse d = Some (JStr ''end'')"
    by (cases fin) (auto simp: is_end_def)
  from is_end_onmessage [OF et] occ assms(3,5) have oe: "on_end t a = (t', a')"
    by simp
  from assms(1) obtain m where m: "ai_messages t a = [m]"
    by (rule consistent_single)
  from assms(1,3,6) have cm: "content m = []"
    unfolding consistent_def m by auto
  from assms(2,7) have lm: "isLoading m = Some False"
    unfolding cleared_def m by auto
  show ?thesis
  proof (cases "searchData t")
    case None
    with oe have "t' = t\<lparr>closed := True\<rparr>" "ai_messages t' a' = ai_messages t a"
      by (auto simp: on_end_def ai_messages_def)
    with m cm lm show ?thesis
      by (simp add: MessageArea_def)
  next
    case (Some sd)
    with oe m cm show ?thesis
      by (auto simp: on_end_def ai_messages_update MessageArea_def)
  qed
qed

text \<open>
  Claim C5, amended. Let a turn be open after the occurrences \<open>occs\<close>, and let \<open>fin\<close>, an
  \<open>end\<close> event or a transport error, terminate it. A turn that received no \<open>content\<close> event
  has no accumulated text. If the accumulated text is not empty, the content of the
  assistant message is that text and it is what the bubble shows. If it is empty, the user
  is shown a stand-in text: after a transport error the generic error sentence, and after
  an \<open>end\<close> event the \<open>Waiting for response...\<close> fallback, provided a \<open>content\<close> event was
  received or a search record exists. Nothing is said of an \<open>end\<close> event on a turn that
  received neither.
\<close>

theorem terminated_turn_shows_text_or_stand_in:
  assumes "turn_of parse a occs = Some (t, a1)" and "\<not> closed t"
    and "fin = OnError \<or> is_end parse fin"
    and "turn_of parse a (occs @ [fin]) = Some (t', a2)"
  shows "closed t' \<and> streamedContent t' = streamedContent t
         \<and> (\<not> hasReceivedContent t' \<longrightarrow> streamedContent t' = [])
         \<and> (streamedContent t' \<noteq> [] \<longrightarrow>
              map content (ai_messages t' a2) = [streamedContent t']
              \<and> map MessageArea (ai_messages t' a2) = [Text (streamedContent t')])
         \<and> (streamedContent t' = [] \<and> fin = OnError \<longrightarrow>
              map MessageArea (ai_messages t' a2) = [Text generic_error])
         \<and> (streamedContent t' = [] \<and> is_end parse fin
              \<and> (hasReceivedContent t' \<or> searchData t' \<noteq> None) \<longrightarrow>
              map MessageArea (ai_messages t' a2) = [WaitingForResponse])"
proof -
  from assms(1) obtain a0 t0 where
    hs: "handleSubmit False a = (a0, Some t0)" and r: "run parse (t0, a0) occs = (t, a1)"
    by (rule turn_of_Some)
  from assms(4) hs have "run parse (t0, a0) (occs @ [fin]) = (t', a2)"
    by (simp add: turn_of_def)
  with r have d: "dispatch parse (t, a1) fin = (t', a2)"
    by (simp add: run_snoc)
  from turn_of_consistent [OF assms(1)] have c: "consistent t a1" .
  from turn_of_consistent [OF assms(4)] have c': "consistent t' a2" .
  from turn_of_cleared [OF assms(1)] have l: "cleared t a1" .
  from turn_of_cleared [OF assms(4)] have l': "cleared t' a2" .
  from terminating_step [OF c assms(2,3) d]
  have cl: "closed t'" and sc: "streamedContent t' = streamedContent t"
    and er: "streamedContent t = [] \<and> fin = OnError \<longrightarrow>
              map MessageArea (ai_messages t' a2) = [Text generic_error]"
    by blast+
  have tx: "streamedContent t' \<noteq> [] \<longrightarrow>
              map content (ai_messages t' a2) = [streamedContent t']
              \<and> map MessageArea (ai_messages t' a2) = [Text (streamedContent t')]"
    using consistent_text [OF c'] by blast
  from er sc have er': "streamedContent t' = [] \<and> fin = OnError \<longrightarrow>
              map MessageArea (ai_messages t' a2) = [Text generic_error]"
    by simp
  from l' have nr: "\<not> hasReceivedContent t' \<longrightarrow> streamedContent t' = []"
    by (simp add: cleared_def)
  have wt: "streamedContent t' = [] \<and> is_end parse fin
              \<and> (hasReceivedContent t' \<or> searchData t' \<noteq> None) \<longrightarrow>
              map MessageArea (ai_messages t' a2) = [WaitingForResponse]"
  proof (intro impI, elim conjE)
    assume e: "streamedContent t' = []" "is_end parse fin"
      and h: "hasReceivedContent t' \<or> searchData t' \<noteq> None"
    from e(2) obtain dd where occ: "fin = OnMessage dd"
      and et: "event_type parse dd = Some (JStr ''end'')"
      by (cases fin) (auto simp: is_end_def)
    from is_end_onmessage [OF et] occ assms(2) d have "on_end t a1 = (t', a2)"
      by simp
    then have "hasReceivedContent t' = hasReceivedContent t" "searchData t' = searchData t"
      by (auto simp: on_end_def)
    with h have h': "hasReceivedContent t \<or> searchData t \<noteq> None" by simp
    from e(1) sc have "streamedContent t = []" by simp
    from end_step_waiting [OF c l assms(2) e(2) d this h']
    show "map MessageArea (ai_messages t' a2) = [WaitingForResponse]" by blast
  qed
  from cl sc nr tx er' wt show ?thesis
    by blast
qed

theorem terminated_turn_shows_text_or_stand_in_witness:
  "shown (run try_parse (example_turn, example_opened)
      [OnMessage (payload (Content ''AI stands'')), OnError]) = [Text ''AI stands'']
   \<and> shown (run try_parse (example_turn, example_opened) [OnError]) = [Text generic_error]
   \<and> shown (run try_parse (example_turn, example_opened)
      [OnMessage (payload (SearchStart ''weather in Paris'')), OnMessage (payload End)])
     = [WaitingForResponse]"
proof -
  let ?m = "OnMessage (payload (Content ''AI stands''))"
  let ?s = "OnMessage (payload (SearchStart ''weather in Paris''))"
  let ?n = "OnMessage (payload End)"
  let ?r = "run try_parse (example_turn, example_opened) [?m]"
  let ?r' = "run try_parse (example_turn, example_opened) [?m, OnError]"
  let ?e = "run try_parse (example_turn, example_opened) []"
  let ?e' = "run try_parse (example_turn, example_opened) [OnError]"
  let ?w = "run try_parse (example_turn, example_opened) [?s]"
  let ?w' = "run try_parse (example_turn, example_opened) [?s, ?n]"
  have h1: "turn_of try_parse example_app [?m] = Some (fst ?r, snd ?r)"
    by (simp only: example_turn_of prod.collapse)
  have h2: "\<not> closed (fst ?r)"
    by code_simp
  have h3: "OnError = OnError \<or> is_end try_parse OnError"
    by simp
  have h4: "turn_of try_parse example_app ([?m] @ [OnError]) = Some (fst ?r', snd ?r')"
    by (simp only: example_turn_of prod.collapse append.simps)
  have v: "streamedContent (fst ?r') = ''AI stands''"
    by code_simp
  have g1: "turn_of try_parse example_app [] = Some (fst ?e, snd ?e)"
    by (simp only: example_turn_of prod.collapse)
  have g2: "\<not> closed (fst ?e)"
    by code_simp
  have g4: "turn_of try_parse example_app ([] @ [OnError]) = Some (fst ?e', snd ?e')"
    by (simp only: example_turn_of prod.collapse append.simps)
  have w: "streamedContent (fst ?e') = []"
    by code_simp
  have k1: "turn_of try_parse example_app [?s] = Some (fst ?w, snd ?w)"
    by (simp only: example_turn_of prod.collapse)
  have k2: "\<not> closed (fst ?w)"
    by code_simp
  have k3: "is_end try_parse ?n"
    by code_simp
  have k4: "turn_of try_parse example_app ([?s] @ [?n]) = Some (fst ?w', snd ?w')"
    by (simp only: example_turn_of prod.collapse append.simps)
  have k5: "streamedContent (fst ?w') = []"
    by code_simp
  have k6: "searchData (fst ?w') \<noteq> None"
    by code_simp
  note T1 = terminated_turn_shows_text_or_stand_in [OF h1 h2 h3 h4]
  note T2 = terminated_turn_shows_text_or_stand_in [OF g1 g2 h3 g4]
  note T3 = terminated_turn_shows_text_or_stand_in [OF k1 k2 disjI2 [OF k3] k4]
  have "streamedContent (fst ?r') \<noteq> []"
    unfolding v by simp
  with T1 have "map MessageArea (ai_messages (fst ?r') (snd ?r')) = [Text (streamedContent (fst ?r'))]"
    by blast
  then have c1: "shown ?r' = [Text ''AI stands'']"
    unfolding shown_def v .
  from T2 w have c2: "shown ?e' = [Text generic_error]"
    unfolding shown_def by blast
  from T3 k3 k5 k6 have c3: "shown ?w' = [WaitingForResponse]"
    unfolding shown_def by blast
  from c1 c2 c3 show ?thesis
    by blast
qed

subsection \<open>The order of the stages\<close>

lemma occurs_before_tl: "occurs_before x y xs \<Longrightarrow> y \<in> set (tl xs)"
proof (induction xs)
  case (Cons z zs)
  then show ?case
    by (cases zs) auto
qed simp

lemma consistent_stages:
  assumes "consistent t a" "m \<in> set (ai_messages t a)"
  shows "case searchData t of
           None \<Rightarrow> stages_of m = []
         | Some sd \<Rightarrow> ''searching'' \<notin> set (tl (stages sd)) \<and> ''writing'' \<notin> set (stages sd)
             \<and> (stages_of m = stages sd \<or> (closed t \<and> stages_of m = stages sd @ [''writing'']))"
proof (cases "searchData t")
  case None
  with assms show ?thesis by (simp add: consistent_def)
next
  case (Some sd)
  with assms have ok: "''searching'' \<notin> set (tl (stages sd)) \<and> ''writing'' \<notin> set (stages sd)"
    and m: "if closed t then stages_of m = stages sd \<or> stages_of m = stages sd @ [''writing'']
            else searchInfo m = Some sd"
    by (simp_all add: consistent_def)
  from m have "stages_of m = stages sd \<or> (closed t \<and> stages_of m = stages sd @ [''writing''])"
    by (cases "closed t") (simp_all add: stages_of_def)
  with ok Some show ?thesis by simp
qed

lemma consistent_stage_order:
  assumes "consistent t a" "m \<in> set (ai_messages t a)"
  shows "\<not> occurs_before ''reading'' ''searching'' (stages_of m)"
proof -
  have "''searching'' \<notin> set (tl (stages_of m))"
  proof (cases "searchData t")
    case None
    with consistent_stages [OF assms] show ?thesis by simp
  next
    case (Some sd)
    with consistent_stages [OF assms]
    have ok: "''searching'' \<notin> set (tl (stages sd))"
      and m: "stages_of m = stages sd \<or> stages_of m = stages sd @ [''writing'']"
      by auto
    from ok have "''searching'' \<notin> set (tl (stages sd @ [''writing'']))"
      by (cases "stages sd") simp_all
    with ok m show ?thesis by auto
  qed
  then show ?thesis
    using occurs_before_tl [of "''reading''" "''searching''" "stages_of m"] by auto
qed

lemma open_no_writing:
  assumes "consistent t a" "\<not> closed t" "m \<in> set (ai_messages t a)"
  shows "''writing'' \<notin> set (stages_of m)"
  using consistent_stages [OF assms(1,3)] assms(2)
  by (cases "searchData t") auto

lemma non_end_keeps_open:
  assumes "onmessage parse t a d = (t', a')" "event_type parse d \<noteq> Some (JStr ''end'')"
  shows "closed t' = closed t"
  using assms(1)
proof (cases rule: onmessage_cases)
  case finish
  with assms(2) show ?thesis by simp
qed (auto simp: on_checkpoint_def on_content_def on_search_start_def on_search_results_def
       on_search_error_def Let_def split: option.splits)

lemma onerror_stages:
  assumes "onerror t a = (t', a')"
  shows "map stages_of (ai_messages t' a') = map stages_of (ai_messages t a)"
proof (cases "streamedContent t = []")
  case True
  with assms show ?thesis
    by (auto simp: onerror_def ai_messages_update stages_of_def)
next
  case False
  with assms show ?thesis
    by (auto simp: onerror_def ai_messages_def)
qed

lemma writing_after_step:
  assumes "consistent t a" "dispatch parse (t, a) occ = (t', a')"
    and "\<not> is_end parse occ"
    and "\<forall>m \<in> set (ai_messages t a). ''writing'' \<notin> set (stages_of m)"
  shows "\<forall>m \<in> set (ai_messages t' a'). ''writing'' \<notin> set (stages_of m)"
proof (cases "closed t")
  case True
  with assms show ?thesis by simp
next
  case False
  show ?thesis
  proof (cases occ)
    case OnError
    with assms(2) False have "onerror t a = (t', a')" by simp
    from onerror_stages [OF this]
    have eq: "map stages_of (ai_messages t' a') = map stages_of (ai_messages t a)" .
    show ?thesis
    proof
      fix m' assume "m' \<in> set (ai_messages t' a')"
      then have "stages_of m' \<in> set (map stages_of (ai_messages t' a'))"
        by simp
      with eq have "stages_of m' \<in> set (map stages_of (ai_messages t a))"
        by simp
      then obtain m where "m \<in> set (ai_messages t a)" "stages_of m = stages_of m'"
        by auto
      with assms(4) show "''writing'' \<notin> set (stages_of m')"
        by metis
    qed
  next
    case (OnMessage d)
    with assms(2) False have om: "onmessage parse t a d = (t', a')" by simp
    from OnMessage assms(3) have ne: "event_type parse d \<noteq> Some (JStr ''end'')"
      by (simp add: is_end_def)
    from non_end_keeps_open [OF om ne] False have "\<not> closed t'" by simp
    moreover from dispatch_consistent [OF assms(1,2)] have "consistent t' a'" .
    ultimately show ?thesis
      using open_no_writing by blast
  qed
qed

lemma run_writing_needs_end:
  assumes "consistent t0 a0" "\<forall>m \<in> set (ai_messages t0 a0). ''writing'' \<notin> set (stages_of m)"
    and "run parse (t0, a0) occs = (t, a)" "m \<in> set (ai_messages t a)"
    and "''writing'' \<in> set (stages_of m)"
  shows "list_ex (is_end parse) occs"
  using assms(3-5)
proof (induction occs arbitrary: t a m rule: rev_induct)
  case Nil
  with assms(2) show ?case by (simp add: run_Nil)
next
  case (snoc occ occs)
  obtain t1 a1 where r: "run parse (t0, a0) occs = (t1, a1)"
    by (cases "run parse (t0, a0) occs")
  with snoc.prems(1) have d: "dispatch parse (t1, a1) occ = (t, a)"
    by (simp add: run_snoc)
  from run_consistent [OF assms(1) r] have c: "consistent t1 a1" .
  show ?case
  proof (cases "is_end parse occ \<or> list_ex (is_end parse) occs")
    case True
    then show ?thesis by auto
  next
    case False
    with snoc.IH [OF r] have "\<forall>m \<in> set (ai_messages t1 a1). ''writing'' \<notin> set (stages_of m)"
      by blast
    from writing_after_step [OF c d _ this] False snoc.prems(2,3) show ?thesis
      by blast
  qed
qed

lemma end_step_stages:
  assumes "consistent t a" "\<not> closed t" "is_end parse occ"
    and "dispatch parse (t, a) occ = (t', a')"
  shows "map stages_of (ai_messages t' a')
           = (case searchData t of
                None \<Rightarrow> map stages_of (ai_messages t a)
              | Some sd \<Rightarrow> map (\<lambda>m. stages_of m @ [''writing'']) (ai_messages t a))"
proof -
  from assms(3) obtain d where occ: "occ = OnMessage d"
    and et: "event_type parse d = Some (JStr ''end'')"
    by (cases occ) (auto simp: is_end_def)
  from is_end_onmessage [OF et] occ assms(2,4) have oe: "on_end t a = (t', a')"
    by simp
  show ?thesis
  proof (cases "searchData t")
    case None
    with oe show ?thesis
      by (auto simp: on_end_def ai_messages_def)
  next
    case (Some sd)
    from assms(1,2) Some have "\<forall>m \<in> set (ai_messages t a). stages_of m = stages sd"
      by (auto simp: consistent_def stages_of_def)
    with oe Some show ?thesis
      by (auto simp: on_end_def ai_messages_update stages_of_def)
  qed
qed

text \<open>
  Claim C7. Take a submission that opens a stream and any sequence \<open>occs\<close> of occurrences
  on it (the protocol's order is one of them). In the state reached, the stage list of the
  assistant message, of which there is exactly one, never has \<open>reading\<close> at a position
  before \<open>searching\<close>, and it contains \<open>writing\<close> only if an \<open>end\<close> event is among \<open>occs\<close>;
  the handler's own record \<open>searchData\<close> never has \<open>reading\<close> before \<open>searching\<close> either,
  and never contains \<open>writing\<close>. When an \<open>end\<close> event is then processed on the open stream, \<open>writing\<close> is appended to
  the stage list exactly when a search record exists for the turn; with no search record
  the stage list stays as it was.
\<close>

theorem stage_progression:
  assumes "turn_of parse a occs = Some (t, a1)"
    and "turn_of parse a (occs @ [occ]) = Some (t', a2)"
  shows "length (ai_messages t a1) = 1
         \<and> (\<forall>m \<in> set (ai_messages t a1).
            \<not> occurs_before ''reading'' ''searching'' (stages_of m)
            \<and> (''writing'' \<in> set (stages_of m) \<longrightarrow> list_ex (is_end parse) occs))
         \<and> (\<forall>sd. searchData t = Some sd \<longrightarrow>
              \<not> occurs_before ''reading'' ''searching'' (stages sd)
              \<and> ''writing'' \<notin> set (stages sd))
         \<and> (\<not> closed t \<and> is_end parse occ \<longrightarrow>
              map stages_of (ai_messages t' a2)
                = (case searchData t of
                     None \<Rightarrow> map stages_of (ai_messages t a1)
                   | Some sd \<Rightarrow> map (\<lambda>m. stages_of m @ [''writing'']) (ai_messages t a1)))"
proof -
  from assms(1) obtain a0 t0 where
    hs: "handleSubmit False a = (a0, Some t0)" and r: "run parse (t0, a0) occs = (t, a1)"
    by (rule turn_of_Some)
  from assms(2) hs have "run parse (t0, a0) (occs @ [occ]) = (t', a2)"
    by (simp add: turn_of_def)
  with r have d: "dispatch parse (t, a1) occ = (t', a2)"
    by (simp add: run_snoc)
  from consistent_start [OF hs] have c0: "consistent t0 a0" .
  from handleSubmit_start [OF hs]
  have w0: "\<forall>m \<in> set (ai_messages t0 a0). ''writing'' \<notin> set (stages_of m)"
    by (simp add: placeholder_def stages_of_def)
  from turn_of_consistent [OF assms(1)] have c: "consistent t a1" .
  have p1: "\<forall>m \<in> set (ai_messages t a1).
            \<not> occurs_before ''reading'' ''searching'' (stages_of m)
            \<and> (''writing'' \<in> set (stages_of m) \<longrightarrow> list_ex (is_end parse) occs)"
    using consistent_stage_order [OF c] run_writing_needs_end [OF c0 w0 r] by blast
  have p2: "\<not> closed t \<and> is_end parse occ \<longrightarrow>
              map stages_of (ai_messages t' a2)
                = (case searchData t of
                     None \<Rightarrow> map stages_of (ai_messages t a1)
                   | Some sd \<Rightarrow> map (\<lambda>m. stages_of m @ [''writing'']) (ai_messages t a1))"
    using end_step_stages [OF c _ _ d] by blast
  from c have p0: "length (ai_messages t a1) = 1"
    by (simp add: consistent_def)
  have p3: "\<forall>sd. searchData t = Some sd \<longrightarrow>
              \<not> occurs_before ''reading'' ''searching'' (stages sd)
              \<and> ''writing'' \<notin> set (stages sd)"
  proof (intro allI impI)
    fix sd assume "searchData t = Some sd"
    with c have "''searching'' \<notin> set (tl (stages sd))" "''writing'' \<notin> set (stages sd)"
      by (simp_all add: consistent_def)
    with occurs_before_tl [of "''reading''" "''searching''" "stages sd"]
    show "\<not> occurs_before ''reading'' ''searching'' (stages sd)
          \<and> ''writing'' \<notin> set (stages sd)"
      by auto
  qed
  from p0 p1 p2 p3 show ?thesis by blast
qed

theorem stage_progression_witness:
  "shown_stages (run try_parse (example_turn, example_opened)
     [OnMessage (payload (SearchStart ''weather in Paris'')),
      OnMessage (payload (SearchResults (json_dumps [''https://weather.com/paris''])))])
     = [[''searching'', ''reading'']]
   \<and> is_end try_parse (OnMessage (payload End))
   \<and> shown_stages (run try_parse (example_turn, example_opened)
     [OnMessage (payload (SearchStart ''weather in Paris'')),
      OnMessage (payload (SearchResults (json_dumps [''https://weather.com/paris'']))),
      OnMessage (payload End)])
     = [[''searching'', ''reading'', ''writing'']]"
proof -
  let ?s = "OnMessage (payload (SearchStart ''weather in Paris''))"
  let ?u = "OnMessage (payload (SearchResults (json_dumps [''https://weather.com/paris''])))"
  let ?e = "OnMessage (payload End)"
  let ?r = "run try_parse (example_turn, example_opened) [?s, ?u]"
  let ?r' = "run try_parse (example_turn, example_opened) [?s, ?u, ?e]"
  have h1: "turn_of try_parse example_app [?s, ?u] = Some (fst ?r, snd ?r)"
    by (simp only: example_turn_of prod.collapse)
  have h2: "turn_of try_parse example_app ([?s, ?u] @ [?e]) = Some (fst ?r', snd ?r')"
    by (simp only: example_turn_of prod.collapse append.simps)
  have h3: "\<not> closed (fst ?r)"
    by code_simp
  have h4: "is_end try_parse ?e"
    by code_simp
  have sd: "searchData (fst ?r)
              = Some \<lparr>stages = [''searching'', ''reading''], query = JStr ''weather in Paris'',
                      urls = JArr [JStr ''https://weather.com/paris''], error = None\<rparr>"
    by code_simp
  have st: "map stages_of (ai_messages (fst ?r) (snd ?r)) = [[''searching'', ''reading'']]"
    by code_simp
  from stage_progression [OF h1 h2] h3 h4
  have "map stages_of (ai_messages (fst ?r') (snd ?r'))
          = (case searchData (fst ?r) of
               None \<Rightarrow> map stages_of (ai_messages (fst ?r) (snd ?r))
             | Some sd \<Rightarrow> map (\<lambda>m. stages_of m @ [''writing'']) (ai_messages (fst ?r) (snd ?r)))"
    by blast
  also have "\<dots> = map (\<lambda>s. s @ [''writing'']) (map stages_of (ai_messages (fst ?r) (snd ?r)))"
    unfolding sd by (simp add: comp_def)
  also have "\<dots> = [[''searching'', ''reading'', ''writing'']]"
    unfolding st by simp
  finally have "shown_stages ?r' = [[''searching'', ''reading'', ''writing'']]"
    unfolding shown_stages_def .
  with st h4 show ?thesis
    unfolding shown_stages_def by blast
qed

subsection \<open>Content events\<close>

lemma run_closed: "closed t \<Longrightarrow> run parse (t, a) occs = (t, a)"
  by (induction occs) (simp_all add: run_Nil run_Cons)

lemma onmessage_streamedContent:
  assumes "onmessage parse t a d = (t', a')"
  shows "streamedContent t' = streamedContent t @ concat (fragment_of parse d)"
proof (cases "parse d")
  case None
  with assms show ?thesis
    by (simp add: onmessage_def fragment_of_def)
next
  case (Some data)
  show ?thesis
  proof (cases "getprop data ''type''")
    case None
    with Some assms show ?thesis
      by (simp add: onmessage_def fragment_of_def)
  next
    case ty: (Some ty)
    consider "ty = JStr ''checkpoint''" | "ty = JStr ''content''" | "ty = JStr ''search_start''"
      | "ty = JStr ''search_results''" | "ty = JStr ''search_error''" | "ty = JStr ''end''"
      | "ty \<noteq> JStr ''checkpoint''" "ty \<noteq> JStr ''content''" "ty \<noteq> JStr ''search_start''"
        "ty \<noteq> JStr ''search_results''" "ty \<noteq> JStr ''search_error''" "ty \<noteq> JStr ''end''"
      by blast
    then show ?thesis
    proof cases
      case 1
      with Some ty assms show ?thesis
        by (auto simp: onmessage_def fragment_of_def on_checkpoint_def)
    next
      case 2
      with Some ty assms show ?thesis
        by (auto simp: onmessage_def fragment_of_def on_content_def Let_def)
    next
      case 3
      with Some ty assms show ?thesis
        by (auto simp: onmessage_def fragment_of_def on_search_start_def Let_def)
    next
      case 4
      with Some ty assms show ?thesis
        by (auto simp: onmessage_def fragment_of_def on_search_results_def Let_def
            split: option.splits)
    next
      case 5
      with Some ty assms show ?thesis
        by (auto simp: onmessage_def fragment_of_def on_search_error_def Let_def)
    next
      case 6
      with Some ty assms show ?thesis
        by (auto simp: onmessage_def fragment_of_def on_end_def)
    next
      case 7
      with Some ty assms show ?thesis
        by (simp add: onmessage_def fragment_of_def)
    qed
  qed
qed

lemma onmessage_content_kept:
  assumes "\<forall>m \<in> set (ai_messages t a). content m = streamedContent t"
    and "onmessage parse t a d = (t', a')"
  shows "\<forall>m \<in> set (ai_messages t' a'). content m = streamedContent t'"
  using assms(2)
proof (cases rule: onmessage_cases)
  case skip
  with assms(1) show ?thesis by simp
next
  case (checkpoint data)
  with assms(1) show ?thesis
    by (auto simp: on_checkpoint_def ai_messages_def)
next
  case (content data)
  then show ?thesis
    by (auto simp: on_content_def Let_def ai_messages_update)
next
  case (search_start data)
  then show ?thesis
    by (auto simp: on_search_start_def Let_def ai_messages_update)
next
  case (search_results data)
  with assms(1) show ?thesis
    by (auto simp: on_search_results_def Let_def ai_messages_update split: option.splits)
next
  case (search_error data)
  then show ?thesis
    by (auto simp: on_search_error_def Let_def ai_messages_update)
next
  case finish
  show ?thesis
  proof (cases "searchData t")
    case None
    with finish assms(1) show ?thesis
      by (auto simp: on_end_def ai_messages_def)
  next
    case (Some sd)
    with finish assms(1) show ?thesis
      by (auto simp: on_end_def ai_messages_update)
  qed
qed

lemma is_content_fragment:
  assumes "is_content parse d f"
  shows "fragment_of parse d = [f] \<and> event_type parse d \<noteq> Some (JStr ''end'')"
  using assms
  by (auto simp: is_content_def fragment_of_def event_type_def split: option.splits)

lemma content_events_fragments:
  assumes "list_all2 (is_content parse) ds fs"
  shows "content_fragments parse (map OnMessage ds) = fs"
  using assms
  by (induction ds fs rule: list_all2_induct) (simp_all add: is_content_fragment)

lemma run_content:
  assumes "\<not> closed t" "\<forall>m \<in> set (ai_messages t a). content m = streamedContent t"
    and "run parse (t, a) occs = (t', a')"
  shows "streamedContent t' = streamedContent t @ concat (content_fragments parse occs)
         \<and> (streamedContent t' \<noteq> [] \<or> \<not> closed_by_error parse occs \<longrightarrow>
              (\<forall>m \<in> set (ai_messages t' a'). content m = streamedContent t'))"
  using assms
proof (induction occs arbitrary: t a)
  case Nil
  then show ?case by (simp add: run_Nil)
next
  case (Cons occ occs)
  show ?case
  proof (cases occ)
    case OnError
    obtain t1 a1 where oe: "onerror t a = (t1, a1)"
      by (cases "onerror t a")
    then have cl: "closed t1" and sc: "streamedContent t1 = streamedContent t"
      by (auto simp: onerror_def)
    from Cons.prems(1,3) OnError oe have "run parse (t1, a1) occs = (t', a')"
      by (simp add: run_Cons)
    with run_closed [OF cl, of parse a1 occs] have eq: "t' = t1" "a' = a1"
      by simp_all
    have "\<forall>m \<in> set (ai_messages t1 a1). content m = streamedContent t1"
      if "streamedContent t \<noteq> []"
      using that oe Cons.prems(2) by (auto simp: onerror_def ai_messages_def)
    with OnError eq sc show ?thesis by simp
  next
    case (OnMessage d)
    obtain t1 a1 where om: "onmessage parse t a d = (t1, a1)"
      by (cases "onmessage parse t a d")
    from onmessage_streamedContent [OF om]
    have sc: "streamedContent t1 = streamedContent t @ concat (fragment_of parse d)" .
    from onmessage_content_kept [OF Cons.prems(2) om]
    have ck: "\<forall>m \<in> set (ai_messages t1 a1). content m = streamedContent t1" .
    from Cons.prems(1,3) OnMessage om have r: "run parse (t1, a1) occs = (t', a')"
      by (simp add: run_Cons)
    show ?thesis
    proof (cases "event_type parse d = Some (JStr ''end'')")
      case True
      from is_end_onmessage [OF True] om have "on_end t a = (t1, a1)" by simp
      then have "closed t1" "streamedContent t1 = streamedContent t"
        by (auto simp: on_end_def)
      with r run_closed [of t1 parse a1 occs] ck True OnMessage show ?thesis
        by auto
    next
      case False
      from non_end_keeps_open [OF om False] Cons.prems(1) have "\<not> closed t1" by simp
      from Cons.IH [OF this ck r]
      have A: "streamedContent t' = streamedContent t1 @ concat (content_fragments parse occs)"
        and B: "streamedContent t' \<noteq> [] \<or> \<not> closed_by_error parse occs \<longrightarrow>
              (\<forall>m \<in> set (ai_messages t' a'). content m = streamedContent t')"
        by blast+
      from False OnMessage
      have cf: "content_fragments parse (occ # occs)
                  = fragment_of parse d @ content_fragments parse occs"
        and ce: "closed_by_error parse (occ # occs) = closed_by_error parse occs"
        by simp_all
      have "streamedContent t' = streamedContent t @ concat (content_fragments parse (occ # occs))"
        unfolding cf A sc by simp
      with B show ?thesis
        unfolding ce by blast
    qed
  qed
qed

text \<open>
  Claim C1. Take a submission that opens a stream, and any sequence of occurrences on it:
  \<open>content\<close> events with any fragments and any boundaries between them, with
  \<open>checkpoint\<close>, search, unreadable or unknown events anywhere among them, up to the
  \<open>end\<close> event or the transport error that closes the stream. After the reducer has
  processed them its accumulated text \<open>streamedContent\<close> is the concatenation, in order, of
  the fragments of the \<open>content\<close> events: no other occurrence changes it. The assistant
  message of the turn, of which there is exactly one in the list, has that text as its
  content; the one exception, a transport error that closes the stream while the text is
  empty, is the matter of claim C5. When all the occurrences are \<open>content\<close> events with the
  fragments \<open>fs\<close>, the text is the concatenation of \<open>fs\<close> (lemma
  \<open>content_events_fragments\<close>).
\<close>

theorem content_fragments_concatenate:
  assumes "turn_of parse a occs = Some (t, a')"
  shows "streamedContent t = concat (content_fragments parse occs)
         \<and> (streamedContent t \<noteq> [] \<or> \<not> closed_by_error parse occs \<longrightarrow>
              map content (ai_messages t a') = [concat (content_fragments parse occs)])"
proof -
  from assms obtain a0 t0 where
    hs: "handleSubmit False a = (a0, Some t0)"
    and r: "run parse (t0, a0) occs = (t, a')"
    by (rule turn_of_Some)
  from handleSubmit_start [OF hs]
  have st: "streamedContent t0 = []" "\<not> closed t0"
    and c0: "\<forall>m \<in> set (ai_messages t0 a0). content m = streamedContent t0"
    by (simp_all add: placeholder_def)
  from run_content [OF st(2) c0 r]
  have A: "streamedContent t = streamedContent t0 @ concat (content_fragments parse occs)"
    and B: "streamedContent t \<noteq> [] \<or> \<not> closed_by_error parse occs \<longrightarrow>
              (\<forall>m \<in> set (ai_messages t a'). content m = streamedContent t)"
    by blast+
  from A st(1) have sc: "streamedContent t = concat (content_fragments parse occs)"
    by simp
  from turn_of_consistent [OF assms] obtain m where m: "ai_messages t a' = [m]"
    by (rule consistent_single)
  have "map content (ai_messages t a') = [streamedContent t]"
    if "streamedContent t \<noteq> [] \<or> \<not> closed_by_error parse occs"
    using B that unfolding m by simp
  then have "streamedContent t \<noteq> [] \<or> \<not> closed_by_error parse occs \<longrightarrow>
              map content (ai_messages t a') = [streamedContent t]"
    by blast
  then have "streamedContent t \<noteq> [] \<or> \<not> closed_by_error parse occs \<longrightarrow>
              map content (ai_messages t a') = [concat (content_fragments parse occs)]"
    using sc by metis
  with sc show ?thesis by blast
qed

theorem content_fragments_concatenate_witness:
  "content_fragments try_parse
     (map OnMessage
        (map payload [Checkpoint ''u'', Content ''The'', SearchStart ''capital of France'',
           SearchResults (json_dumps [''https://example.com/france'']), Content '' capital''])
      @ [OnError])
     = [''The'', '' capital'']
   \<and> streamedContent (fst (run try_parse (example_turn, example_opened)
       (map OnMessage
          (map payload [Checkpoint ''u'', Content ''The'', SearchStart ''capital of France'',
             SearchResults (json_dumps [''https://example.com/france'']), Content '' capital''])
        @ [OnError]))) = ''The capital''
   \<and> map content (ai_messages example_turn (snd (run try_parse (example_turn, example_opened)
       (map OnMessage
          (map payload [Checkpoint ''u'', Content ''The'', SearchStart ''capital of France'',
             SearchResults (json_dumps [''https://example.com/france'']), Content '' capital''])
        @ [OnError])))) = [''The capital'']"
proof -
  let ?occs = "map OnMessage
        (map payload [Checkpoint ''u'', Content ''The'', SearchStart ''capital of France'',
           SearchResults (json_dumps [''https://example.com/france'']), Content '' capital''])
      @ [OnError]"
  let ?r = "run try_parse (example_turn, example_opened) ?occs"
  have h: "turn_of try_parse example_app ?occs = Some (fst ?r, snd ?r)"
    by (simp only: example_turn_of prod.collapse)
  have f: "content_fragments try_parse ?occs = [''The'', '' capital'']"
    by code_simp
  have i: "aiResponseId (fst ?r) = aiResponseId example_turn"
    by code_simp
  have am: "ai_messages (fst ?r) (snd ?r) = ai_messages example_turn (snd ?r)"
    using i by (simp add: ai_messages_def)
  note T = content_fragments_concatenate [OF h]
  from T have s1: "streamedContent (fst ?r) = concat (content_fragments try_parse ?occs)"
    by blast
  then have s2: "streamedContent (fst ?r) = ''The capital''"
    unfolding f by simp
  then have "streamedContent (fst ?r) \<noteq> []"
    by simp
  with T have "map content (ai_messages (fst ?r) (snd ?r))
                 = [concat (content_fragments try_parse ?occs)]"
    by blast
  then have s3: "map content (ai_messages example_turn (snd ?r)) = [''The capital'']"
    unfolding f am by simp
  from f s2 s3 show ?thesis by blast
qed

end
